theory Spec2Isabelle
  imports Main
begin

section \<open>Expression and node model\<close>

text \<open>
  The rewriting functions of \<^verbatim>\<open>ibis/expr/analysis.py\<close> work on expressions
  (\<^verbatim>\<open>ir.Expr\<close>) wrapping operation nodes (\<^verbatim>\<open>ops.Node\<close>). A node is its class and
  the tuple \<^verbatim>\<open>node.args\<close>; every argument is an expression, a sequence of
  expressions, a string, a schema (column names) or \<^verbatim>\<open>None\<close>. An expression is its
  category (\<^verbatim>\<open>ir.Table\<close>, a column or a scalar value), its node and an optional name.
  HOL equality on these types is the structural equality of the Python objects.
\<close>

datatype error = IbisTypeError | ExpressionError | AttributeError | OtherError

datatype category = Table | Column | Scalar

datatype tag =
    Literal | TableColumn | Reduction | Alias | Window | ValueOp string
  | PhysicalTable | SelfReference | Selection | Aggregation | Join | OtherOp string

datatype arg = E expr | L "expr list" | S string | Names "string list" | NoneArg
and node = Node tag "arg list"
and expr = Expr category node "string option"

fun op :: "expr \<Rightarrow> node" where
  "op (Expr c n nm) = n"

fun is_table :: "expr \<Rightarrow> bool" where
  "is_table (Expr c n nm) = (c = Table)"

fun node_tag :: "node \<Rightarrow> tag" where
  "node_tag (Node t as) = t"

fun args :: "node \<Rightarrow> arg list" where
  "args (Node t as) = as"

text \<open>
  Modelled from the spec: the naming methods of \<^verbatim>\<open>ibis.expr.types\<close>, which are not part
  of the sources. The name of an expression is held by its node: a column reference goes
  by its column name, and \<^verbatim>\<open>expr.name(x)\<close> wraps the expression in an \<^verbatim>\<open>ops.Alias\<close>
  node holding the name \<open>x\<close> (the node that \<^verbatim>\<open>_rewrite_filter_alias\<close> takes apart with
  \<^verbatim>\<open>op.arg\<close> and \<^verbatim>\<open>op.name\<close>), so a renamed column is no longer a column reference.
  For every other node class the third component of the expression is its name, if it
  has one.
\<close>

definition get_name :: "expr \<Rightarrow> string option" where
  "get_name e =
     (case e of
        Expr c n nm \<Rightarrow>
          (if node_tag n = TableColumn \<or> node_tag n = Alias then
             (case args n of [E x, S name] \<Rightarrow> Some name | _ \<Rightarrow> None)
           else nm))"

fun set_name :: "expr \<Rightarrow> string \<Rightarrow> expr" where
  "set_name (Expr c n nm) x = Expr c (Node Alias [E (Expr c n nm), S x]) (Some x)"

text \<open>\<^verbatim>\<open>isinstance(expr, ir.Value)\<close>: a column or a scalar expression.\<close>

fun is_value_expr :: "expr \<Rightarrow> bool" where
  "is_value_expr (Expr c n nm) = (c \<noteq> Table)"

text \<open>
  Modelled from the spec: the class hierarchy of \<^verbatim>\<open>ibis.expr.operations\<close>. Value nodes
  (\<^verbatim>\<open>ops.Value\<close>) produce a scalar or a column, table nodes (\<^verbatim>\<open>ops.TableNode\<close>)
  produce a relation; \<open>ValueOp f\<close> stands for every other value class (arithmetic,
  comparisons, \<^verbatim>\<open>And\<close>), \<open>OtherOp f\<close> for a class that is neither (a sort key).
\<close>

definition is_value :: "tag \<Rightarrow> bool" where
  "is_value t =
     (case t of Literal \<Rightarrow> True | TableColumn \<Rightarrow> True | Reduction \<Rightarrow> True
      | Alias \<Rightarrow> True | Window \<Rightarrow> True | ValueOp f \<Rightarrow> True | _ \<Rightarrow> False)"

definition is_table_node :: "tag \<Rightarrow> bool" where
  "is_table_node t = (t \<in> {PhysicalTable, SelfReference, Selection, Aggregation, Join})"

text \<open>The column names of a table node's schema argument (\<^verbatim>\<open>val.schema()\<close>).\<close>

definition schema_names :: "node \<Rightarrow> string list" where
  "schema_names n = concat (map (\<lambda>a. case a of Names cs \<Rightarrow> cs | _ \<Rightarrow> []) (args n))"

text \<open>
  Modelled from the spec: the node classes of \<^verbatim>\<open>ibis.expr.operations\<close> are not part of
  the sources. \<^verbatim>\<open>type(node)(*new_args)\<close> builds a node of the same class from the new
  arguments after checking them against the class's argument rules, and raises
  (\<^verbatim>\<open>IbisTypeError\<close> for a rule violation) when the check fails. The check is the
  parameter \<open>validate\<close>.
\<close>

definition construct ::
  "(tag \<Rightarrow> arg list \<Rightarrow> error option) \<Rightarrow> tag \<Rightarrow> arg list \<Rightarrow> error + node" where
  "construct validate t as =
     (case validate t as of Some err \<Rightarrow> Inl err | None \<Rightarrow> Inr (Node t as))"

section \<open>Substitution\<close>

text \<open>
  \<^verbatim>\<open>Substitutor._substitute\<close>. The mapping is looked up first; a blocking node is
  returned as it is; otherwise the direct expression arguments (not the sequences) are
  substituted, and the node is rebuilt when one of them changed. Only an
  \<^verbatim>\<open>IbisTypeError\<close> of the constructor is caught. The identity test
  \<^verbatim>\<open>new_arg is arg\<close> is modelled by equality: the model has no object identities, and a
  node rebuilt from equal arguments equals the original. The memoisation cache of
  \<^verbatim>\<open>Substitutor.__init__\<close> is left out: it is fresh for every \<^verbatim>\<open>sub_for\<close> call
  and caches a function that is pure for a fixed mapping.
\<close>

fun substitute ::
  "(node \<Rightarrow> bool) \<Rightarrow> (tag \<Rightarrow> arg list \<Rightarrow> error option) \<Rightarrow> (node \<rightharpoonup> expr) \<Rightarrow> expr
     \<Rightarrow> error + expr"
and substitute_args ::
  "(node \<Rightarrow> bool) \<Rightarrow> (tag \<Rightarrow> arg list \<Rightarrow> error option) \<Rightarrow> (node \<rightharpoonup> expr) \<Rightarrow> arg list
     \<Rightarrow> error + arg list"
where
  "substitute blocks validate mapping (Expr c (Node t as) nm) =
     (case mapping (Node t as) of
        Some v \<Rightarrow> Inr v
      | None \<Rightarrow>
          if blocks (Node t as) then Inr (Expr c (Node t as) nm)
          else (case substitute_args blocks validate mapping as of
                  Inl err \<Rightarrow> Inl err
                | Inr new_args \<Rightarrow>
                    if new_args = as then Inr (Expr c (Node t as) nm)
                    else (case construct validate t new_args of
                            Inl IbisTypeError \<Rightarrow> Inr (Expr c (Node t as) nm)
                          | Inl err \<Rightarrow> Inl err
                          | Inr new_node \<Rightarrow> Inr (Expr c new_node nm))))"
| "substitute_args blocks validate mapping [] = Inr []"
| "substitute_args blocks validate mapping (E e # as) =
     (case substitute blocks validate mapping e of
        Inl err \<Rightarrow> Inl err
      | Inr e' \<Rightarrow>
          (case substitute_args blocks validate mapping as of
             Inl err \<Rightarrow> Inl err
           | Inr as' \<Rightarrow> Inr (E e' # as')))"
| "substitute_args blocks validate mapping (a # as) =
     (case substitute_args blocks validate mapping as of
        Inl err \<Rightarrow> Inl err
      | Inr as' \<Rightarrow> Inr (a # as'))"

text \<open>\<^verbatim>\<open>sub_for\<close>: the substitution list becomes a mapping keyed by the nodes.\<close>

definition sub_for ::
  "(node \<Rightarrow> bool) \<Rightarrow> (tag \<Rightarrow> arg list \<Rightarrow> error option) \<Rightarrow> expr \<Rightarrow> (expr \<times> expr) list
     \<Rightarrow> error + expr" where
  "sub_for blocks validate e substitutions =
     substitute blocks validate (map_of (map (\<lambda>(k, v). (op k, v)) (rev substitutions))) e"

text \<open>
  Modelled from the spec: an instance of \<^verbatim>\<open>blocks()\<close>, which the sources do not
  contain. Physical tables, self references and aggregations are opaque; a selection
  is opaque when it projects (its selection list is not empty); value nodes and joins
  are not.
\<close>

definition sample_blocks :: "node \<Rightarrow> bool" where
  "sample_blocks n =
     (if node_tag n \<in> {PhysicalTable, SelfReference, Aggregation} then True
      else if node_tag n = Selection then
        (case args n of tbl # L sels # rest \<Rightarrow> sels \<noteq> [] | _ \<Rightarrow> False)
      else False)"

text \<open>Concrete expressions on which the functions are evaluated.\<close>

definition physical :: "string \<Rightarrow> string list \<Rightarrow> expr" where
  "physical name cols = Expr Table (Node PhysicalTable [S name, Names cols]) None"

definition column :: "expr \<Rightarrow> string \<Rightarrow> expr" where
  "column tbl name = Expr Column (Node TableColumn [E tbl, S name]) (Some name)"

definition literal :: "string \<Rightarrow> expr" where
  "literal v = Expr Scalar (Node Literal [S v]) None"

definition binop :: "string \<Rightarrow> expr \<Rightarrow> expr \<Rightarrow> expr" where
  "binop f a b = Expr Column (Node (ValueOp f) [E a, E b]) None"

definition selection :: "expr \<Rightarrow> expr list \<Rightarrow> expr list \<Rightarrow> expr list \<Rightarrow> expr" where
  "selection tbl sels preds keys =
     Expr Table (Node Selection [E tbl, L sels, L preds, L keys]) None"

definition t1 :: expr where
  "t1 = physical ''t'' [''a'', ''b'']"

definition t2 :: expr where
  "t2 = physical ''u'' [''a'', ''c'']"

section \<open>Simplification: lifting column references\<close>

text \<open>
  \<^verbatim>\<open>ExprSimplifier\<close>. \<open>get_result\<close> is \<^verbatim>\<open>ExprSimplifier.get_result\<close> with the
  flag \<^verbatim>\<open>block_projection\<close>; \<open>lift\<close>, \<open>lift_TableColumn\<close> are the methods of these
  names; \<open>lift_root\<close> is the loop of \<^verbatim>\<open>_lift_TableColumn\<close> over the selections of the
  column's table (the last physical table that has the column wins); \<open>lift_args\<close> is the
  loop of \<^verbatim>\<open>get_result\<close> over \<^verbatim>\<open>node.args\<close> with \<^verbatim>\<open>_lift_arg\<close>, and
  \<open>lift_list\<close> the \<^verbatim>\<open>map\<close> of \<^verbatim>\<open>_lift_arg\<close> over a sequence argument. No
  constructor error is caught here. A result is a new object exactly when it differs
  from the argument, so \<^verbatim>\<open>is not\<close> is modelled by inequality. A column node without
  a table and a name, and a selection without a table and a selection list, cannot be
  built in Python; the model answers \<open>OtherError\<close> for them. The lifted column
  reference \<^verbatim>\<open>type(expr)(lifted_node)\<close> goes by its column name.
\<close>

fun get_result :: "(tag \<Rightarrow> arg list \<Rightarrow> error option) \<Rightarrow> bool \<Rightarrow> expr \<Rightarrow> error + expr"
and lift :: "(tag \<Rightarrow> arg list \<Rightarrow> error option) \<Rightarrow> bool \<Rightarrow> expr \<Rightarrow> error + expr"
and lift_TableColumn :: "(tag \<Rightarrow> arg list \<Rightarrow> error option) \<Rightarrow> bool \<Rightarrow> expr \<Rightarrow> error + expr"
and lift_root :: "(tag \<Rightarrow> arg list \<Rightarrow> error option) \<Rightarrow> string \<Rightarrow> expr list \<Rightarrow> expr option \<Rightarrow> error + expr option"
and lift_args :: "(tag \<Rightarrow> arg list \<Rightarrow> error option) \<Rightarrow> bool \<Rightarrow> arg list \<Rightarrow> error + arg list"
and lift_list :: "(tag \<Rightarrow> arg list \<Rightarrow> error option) \<Rightarrow> bool \<Rightarrow> expr list \<Rightarrow> error + expr list"
where
  "get_result validate block (Expr c (Node t as) nm) =
     (if t = Literal then Inr (Expr c (Node t as) nm)
      else
        (case (if t = TableColumn then lift_TableColumn validate block (Expr c (Node t as) nm)
               else Inr (Expr c (Node t as) nm)) of
           Inl err \<Rightarrow> Inl err
         | Inr result \<Rightarrow>
             if t = TableColumn \<and> result \<noteq> Expr c (Node t as) nm then Inr result
             else if t = Selection then Inr (Expr c (Node t as) nm)
             else
               (case lift_args validate block as of
                  Inl err \<Rightarrow> Inl err
                | Inr lifted_args \<Rightarrow>
                    if lifted_args = as then Inr (Expr c (Node t as) nm)
                    else
                      (case construct validate t lifted_args of
                         Inl err \<Rightarrow> Inl err
                       | Inr lifted_node \<Rightarrow>
                           Inr (Expr c lifted_node (if c \<noteq> Table then nm else None))))))"
| "lift validate block (Expr c (Node t as) nm) =
     (if is_value t then get_result validate block (Expr c (Node t as) nm)
      else if t = Selection then Inr (Expr c (Node t as) nm)
      else if is_table_node t then Inr (Expr c (Node t as) nm)
      else get_result validate block (Expr c (Node t as) nm))"
| "lift_TableColumn validate block (Expr c (Node t as) nm) =
     (case as of
        [E (Expr rc (Node rt ras) rnm), S name] \<Rightarrow>
          if rt = Selection then
            (case ras of
               E x # L sels # rest \<Rightarrow>
                 (case lift_root validate name sels None of
                    Inl err \<Rightarrow> Inl err
                  | Inr None \<Rightarrow> Inr (Expr c (Node t as) nm)
                  | Inr (Some lifted_root) \<Rightarrow>
                      if block then Inr (Expr c (Node t as) nm)
                      else
                        (case construct validate TableColumn [E lifted_root, S name] of
                           Inl err \<Rightarrow> Inl err
                         | Inr lifted_node \<Rightarrow> Inr (Expr c lifted_node (Some name))))
             | _ \<Rightarrow> Inl OtherError)
          else Inr (Expr c (Node t as) nm)
      | _ \<Rightarrow> Inl OtherError)"
| "lift_root validate name [] acc = Inr acc"
| "lift_root validate name (val # vals) acc =
     (if node_tag (op val) = PhysicalTable \<and> name \<in> set (schema_names (op val)) then
        (case lift validate False val of
           Inl err \<Rightarrow> Inl err
         | Inr lifted_root \<Rightarrow> lift_root validate name vals (Some lifted_root))
      else lift_root validate name vals acc)"
| "lift_args validate block [] = Inr []"
| "lift_args validate block (a # as) =
     (case (case a of
              E e \<Rightarrow> (case lift validate block e of Inl err \<Rightarrow> Inl err | Inr e' \<Rightarrow> Inr (E e'))
            | L es \<Rightarrow> (case lift_list validate block es of Inl err \<Rightarrow> Inl err | Inr es' \<Rightarrow> Inr (L es'))
            | _ \<Rightarrow> Inr a) of
        Inl err \<Rightarrow> Inl err
      | Inr a' \<Rightarrow>
          (case lift_args validate block as of
             Inl err \<Rightarrow> Inl err
           | Inr as' \<Rightarrow> Inr (a' # as')))"
| "lift_list validate block [] = Inr []"
| "lift_list validate block (e # es) =
     (case lift validate block e of
        Inl err \<Rightarrow> Inl err
      | Inr e' \<Rightarrow>
          (case lift_list validate block es of
             Inl err \<Rightarrow> Inl err
           | Inr es' \<Rightarrow> Inr (e' # es')))"


text \<open>\<^verbatim>\<open>substitute_parents\<close> (the \<^verbatim>\<open>simplify\<close> of the interface).\<close>

definition substitute_parents ::
  "(tag \<Rightarrow> arg list \<Rightarrow> error option) \<Rightarrow> expr \<Rightarrow> bool \<Rightarrow> error + expr" where
  "substitute_parents validate e past_projection =
     get_result validate (\<not> past_projection) e"

section \<open>Subexpressions\<close>

text \<open>
  The proper subexpressions of an expression, through every argument of its node
  (expressions and sequences of expressions) and in argument order. The claims speak
  of what lies strictly inside a node and of the subterms of an expression.
\<close>

fun subexprs :: "expr \<Rightarrow> expr list"
and subexprs_args :: "arg list \<Rightarrow> expr list"
and subexprs_list :: "expr list \<Rightarrow> expr list"
where
  "subexprs (Expr c (Node t as) nm) = subexprs_args as"
| "subexprs_args [] = []"
| "subexprs_args (E e # as) = e # subexprs e @ subexprs_args as"
| "subexprs_args (L es # as) = subexprs_list es @ subexprs_args as"
| "subexprs_args (a # as) = subexprs_args as"
| "subexprs_list [] = []"
| "subexprs_list (e # es) = e # subexprs e @ subexprs_list es"

text \<open>
  A column reference that \<^verbatim>\<open>_lift_TableColumn\<close> rewrites (or cannot read): a subterm
  that lifting changes.
\<close>

definition liftable :: "(tag \<Rightarrow> arg list \<Rightarrow> error option) \<Rightarrow> bool \<Rightarrow> expr \<Rightarrow> bool" where
  "liftable validate block e =
     (node_tag (op e) = TableColumn \<and> lift_TableColumn validate block e \<noteq> Inr e)"

text \<open>
  Positions inside an expression: \<open>child e (i, j)\<close> is argument \<open>i\<close> of the node of
  \<open>e\<close> when it is an expression (\<open>j = 0\<close>), or element \<open>j\<close> of argument \<open>i\<close>
  when it is a sequence; \<open>at_path e p\<close> follows a list of such steps.
\<close>

fun child :: "expr \<Rightarrow> nat \<times> nat \<Rightarrow> expr option" where
  "child (Expr c (Node t as) nm) (i, j) =
     (if i < length as then
        (case as ! i of
           E x \<Rightarrow> if j = 0 then Some x else None
         | L xs \<Rightarrow> if j < length xs then Some (xs ! j) else None
         | _ \<Rightarrow> None)
      else None)"

fun at_path :: "expr \<Rightarrow> (nat \<times> nat) list \<Rightarrow> expr option" where
  "at_path e [] = Some e"
| "at_path e (ij # p) = (case child e ij of None \<Rightarrow> None | Some x \<Rightarrow> at_path x p)"

text \<open>
  How \<^verbatim>\<open>substitute\<close> relates an argument of a node to the argument of the rebuilt
  node: an expression is substituted, anything else is kept.
\<close>

definition arg_subst ::
  "(node \<Rightarrow> bool) \<Rightarrow> (tag \<Rightarrow> arg list \<Rightarrow> error option) \<Rightarrow> (node \<rightharpoonup> expr) \<Rightarrow> arg \<Rightarrow> arg \<Rightarrow> bool" where
  "arg_subst blocks validate mapping a a' =
     (case a of
        E y \<Rightarrow> \<exists>y'. a' = E y' \<and> substitute blocks validate mapping y = Inr y'
      | _ \<Rightarrow> a' = a)"

section \<open>Graph traversal and root tables\<close>

text \<open>
  Modelled from the spec: \<^verbatim>\<open>op.flat_args()\<close>, the arguments of a node in declared
  order with the sequence arguments flattened; only expressions are kept, the others
  never pass the traversal's type filter.
\<close>

definition flat_args :: "node \<Rightarrow> expr list" where
  "flat_args n = concat (map (\<lambda>a. case a of E e \<Rightarrow> [e] | L es \<Rightarrow> es | _ \<Rightarrow> []) (args n))"

text \<open>The termination measure of the traversal: the sizes of the pending expressions.\<close>

lemma sum_list_filter_le:
  "sum_list (map (f :: 'a \<Rightarrow> nat) (filter P xs)) \<le> sum_list (map f xs)"
  by (induction xs) auto

lemma size_list_sum:
  "sum_list (map f xs) \<le> size_list f xs"
  by (induction xs) auto

lemma flat_args_size_aux:
  "sum_list (map size (concat (map (\<lambda>a. case a of E e \<Rightarrow> [e] | L es \<Rightarrow> es | _ \<Rightarrow> []) as)))
     \<le> size_list size as"
proof (induction as)
  case Nil
  then show ?case by simp
next
  case (Cons a as)
  show ?case
  proof (cases a)
    case (L es)
    have "sum_list (map size es) \<le> size_list size es" by (rule size_list_sum)
    with Cons L show ?thesis by simp
  qed (use Cons in auto)
qed

lemma flat_args_size:
  "sum_list (map size (filter ty (flat_args (op e)))) < size e"
proof (cases e)
  case (Expr c n nm)
  show ?thesis
  proof (cases n)
    case (Node t as)
    have "sum_list (map size (filter ty (flat_args (op e))))
            \<le> sum_list (map size (flat_args (op e)))"
      by (rule sum_list_filter_le)
    also have "\<dots> \<le> size_list size as"
      using flat_args_size_aux [of as] Expr Node by (simp add: flat_args_def)
    finally show ?thesis using Expr Node by simp
  qed
qed

lemma size_expr_pos:
  "0 < size (e :: expr)"
  by (cases e) simp

text \<open>
  Modelled from the spec: \<^verbatim>\<open>lin.traverse\<close> of \<^verbatim>\<open>ibis.expr.lineage\<close>, which is not
  part of the sources. The visitor returns a control value (\<^verbatim>\<open>lin.proceed\<close> is
  \<open>True\<close>, \<^verbatim>\<open>lin.halt\<close> is \<open>False\<close>) and an optional result. The walk is depth
  first over the flattened arguments in declared order, keeps a stack of pending
  expressions, yields every result that is not \<^verbatim>\<open>None\<close>, does not descend below a
  node where the visitor halts, only follows expressions that pass the type filter
  \<open>ty\<close>, and with \<open>dedup\<close> visits every node once (\<open>seen\<close> holds the visited nodes).
\<close>

function traverse_loop ::
  "(expr \<Rightarrow> bool \<times> 'r option) \<Rightarrow> (expr \<Rightarrow> bool) \<Rightarrow> bool \<Rightarrow> expr list \<Rightarrow> node list \<Rightarrow> 'r list" where
  "traverse_loop fn ty dedup [] seen = []"
| "traverse_loop fn ty dedup (e # todo) seen =
     (if dedup \<and> op e \<in> set seen then traverse_loop fn ty dedup todo seen
      else
        (case fn e of
           (control, result) \<Rightarrow>
             (case result of None \<Rightarrow> [] | Some r \<Rightarrow> [r])
             @ traverse_loop fn ty dedup
                 (if control then filter ty (flat_args (op e)) @ todo else todo)
                 (if dedup then op e # seen else seen)))"
  by pat_completeness auto
termination
  by (relation "measure (\<lambda>(fn, ty, dedup, todo, seen). sum_list (map size todo))")
    (auto simp: flat_args_size size_expr_pos)

definition traverse ::
  "(expr \<Rightarrow> bool \<times> 'r option) \<Rightarrow> expr list \<Rightarrow> (expr \<Rightarrow> bool) \<Rightarrow> bool \<Rightarrow> 'r list" where
  "traverse fn roots ty dedup = traverse_loop fn ty dedup (filter ty roots) []"

text \<open>The default type filter \<^verbatim>\<open>type=ir.Expr\<close>.\<close>

definition any_type :: "expr \<Rightarrow> bool" where
  "any_type e = True"

text \<open>
  \<^verbatim>\<open>_find_root_table\<close>. For a selection the visitor yields a copy built from the
  table and the selections only (the first two arguments; the class defaults leave the
  predicates and the sort keys empty) and proceeds into the arguments of the original
  node; at any other blocking node it yields the node and halts.
\<close>

definition find_root_table :: "(node \<Rightarrow> bool) \<Rightarrow> expr \<Rightarrow> bool \<times> node option" where
  "find_root_table blocks e =
     (if node_tag (op e) = Selection then
        (True, Some (Node Selection (take 2 (args (op e)) @ [L [], L []])))
      else if blocks (op e) then (False, Some (op e))
      else (True, None))"

text \<open>\<^verbatim>\<open>shares_all_roots\<close> and \<^verbatim>\<open>shares_some_roots\<close>.\<close>

definition shares_all_roots :: "(node \<Rightarrow> bool) \<Rightarrow> expr list \<Rightarrow> expr list \<Rightarrow> bool" where
  "shares_all_roots blocks exprs parents =
     (set (traverse (find_root_table blocks) exprs any_type True)
        \<subseteq> set (traverse (find_root_table blocks) parents any_type True))"

definition shares_some_roots :: "(node \<Rightarrow> bool) \<Rightarrow> expr list \<Rightarrow> expr list \<Rightarrow> bool" where
  "shares_some_roots blocks exprs parents =
     (set (traverse (find_root_table blocks) exprs any_type True)
        \<inter> set (traverse (find_root_table blocks) parents any_type True) \<noteq> {})"

text \<open>
  What a traversal visits, stated without the stack: the expressions reachable from
  the roots through the arguments of nodes where the visitor proceeds, following only
  expressions that pass the type filter. \<open>visited_by\<close> is the loop invariant that ties
  the stack machine to it: \<open>F\<close> is the set of nodes seen when the loop ends.
\<close>

inductive_set reach :: "(expr \<Rightarrow> bool \<times> 'r option) \<Rightarrow> (expr \<Rightarrow> bool) \<Rightarrow> expr set \<Rightarrow> expr set"
  for fn :: "expr \<Rightarrow> bool \<times> 'r option" and ty :: "expr \<Rightarrow> bool" and R :: "expr set"
where
  root: "e \<in> R \<Longrightarrow> e \<in> reach fn ty R"
| step: "e \<in> reach fn ty R \<Longrightarrow> fst (fn e) \<Longrightarrow> c \<in> set (flat_args (op e)) \<Longrightarrow> ty c
          \<Longrightarrow> c \<in> reach fn ty R"

definition visited_by ::
  "(expr \<Rightarrow> bool \<times> 'r option) \<Rightarrow> (expr \<Rightarrow> bool) \<Rightarrow> expr list \<Rightarrow> node list \<Rightarrow> 'r list
     \<Rightarrow> node set \<Rightarrow> bool" where
  "visited_by fn ty todo seen out F =
     (set seen \<subseteq> F \<and> op ` set todo \<subseteq> F
      \<and> (\<forall>e. op e \<in> F - set seen \<longrightarrow> fst (fn e) \<longrightarrow>
             (\<forall>c\<in>set (flat_args (op e)). ty c \<longrightarrow> op c \<in> F))
      \<and> F \<subseteq> set seen \<union> op ` reach fn ty (set todo)
      \<and> set out = {r. \<exists>e. op e \<in> F - set seen \<and> snd (fn e) = Some r})"

text \<open>The root tables of a list of expressions, as \<^verbatim>\<open>shares_all_roots\<close> computes them.\<close>

definition root_tables_of :: "(node \<Rightarrow> bool) \<Rightarrow> expr list \<Rightarrow> node set" where
  "root_tables_of blocks exprs = set (traverse (find_root_table blocks) exprs any_type True)"

text \<open>
  Modelled from the spec: an instance of the argument rules, used to evaluate the
  functions on concrete nodes. A column reference takes a table expression and a name.
  A selection takes a table expression and three sequences; its selections and sort
  keys must originate from the table (share all roots with it) and each of its
  predicates must share a root with it, and a selection that breaks this structural
  invariant is refused with an error of the \<^verbatim>\<open>ExpressionError\<close> class. Every other
  class accepts its arguments.
\<close>

definition sample_rules :: "tag \<Rightarrow> arg list \<Rightarrow> error option" where
  "sample_rules t as =
     (if t = TableColumn then
        (case as of
           [E tbl, S name] \<Rightarrow> if is_table tbl then None else Some IbisTypeError
         | _ \<Rightarrow> Some IbisTypeError)
      else if t = Selection then
        (case as of
           [E tbl, L sels, L preds, L keys] \<Rightarrow>
             if \<not> is_table tbl then Some IbisTypeError
             else if \<not> shares_all_roots sample_blocks (sels @ keys) [tbl] then
               Some ExpressionError
             else if list_ex (\<lambda>predicate. \<not> shares_some_roots sample_blocks [predicate] [tbl])
                       preds
             then Some ExpressionError
             else None
         | _ \<Rightarrow> Some IbisTypeError)
      else None)"

section \<open>Filters: reductions and predicate pushdown\<close>

text \<open>
  \<^verbatim>\<open>is_reduction\<close>: the visitor halts with \<^verbatim>\<open>True\<close> at a reduction and halts without a
  result at a table node (``don't go below any table nodes''); \<^verbatim>\<open>any\<close> of the results.
\<close>

definition is_reduction_predicate :: "expr \<Rightarrow> bool \<times> bool option" where
  "is_reduction_predicate e =
     (if node_tag (op e) = Reduction then (False, Some True)
      else if is_table_node (node_tag (op e)) then (False, None)
      else (True, None))"

definition is_reduction :: "expr \<Rightarrow> bool" where
  "is_reduction e = list_ex (\<lambda>r. r) (traverse is_reduction_predicate [e] any_type True)"

text \<open>
  \<^verbatim>\<open>_PushdownValidate._validate_projection\<close>: the loop over the selections of the
  parent. Every entry that matches overwrites \<^verbatim>\<open>is_valid\<close>, so the last match
  decides. \<open>column_parts\<close> reads \<^verbatim>\<open>node.table\<close> and \<^verbatim>\<open>node.name\<close> of a column node;
  a column node without them cannot be built in Python and the model answers
  \<open>AttributeError\<close>.
\<close>

definition column_parts :: "node \<Rightarrow> error + (expr \<times> string)" where
  "column_parts n =
     (case args n of [E tbl, S name] \<Rightarrow> Inr (tbl, name) | _ \<Rightarrow> Inl AttributeError)"

fun validate_projection_loop ::
  "(tag \<Rightarrow> arg list \<Rightarrow> error option) \<Rightarrow> expr \<Rightarrow> expr \<Rightarrow> string \<Rightarrow> expr list \<Rightarrow> bool
     \<Rightarrow> error + bool" where
  "validate_projection_loop validate e tbl name [] is_valid = Inr is_valid"
| "validate_projection_loop validate e tbl name (val # vals) is_valid =
     (if node_tag (op val) = PhysicalTable \<and> name \<in> set (schema_names (op val)) then
        validate_projection_loop validate e tbl name vals True
      else if node_tag (op val) = TableColumn \<and> Some name = get_name val then
        (case column_parts (op val) of
           Inl err \<Rightarrow> Inl err
         | Inr (col_table, col_name) \<Rightarrow>
             (case substitute_parents validate e False of
                Inl err \<Rightarrow> Inl err
              | Inr lifted \<Rightarrow>
                  if op col_table = op tbl then
                    validate_projection_loop validate e tbl name vals True
                  else
                    (case column_parts (op lifted) of
                       Inl err \<Rightarrow> Inl err
                     | Inr (lifted_table, lifted_name) \<Rightarrow>
                         validate_projection_loop validate e tbl name vals
                           (op col_table = op lifted_table))))
      else validate_projection_loop validate e tbl name vals is_valid)"

text \<open>The selection list of a selection node (\<^verbatim>\<open>parent.selections\<close>).\<close>

definition selections_of :: "node \<Rightarrow> expr list" where
  "selections_of n = (case args n of tbl # L sels # rest \<Rightarrow> sels | _ \<Rightarrow> [])"

definition validate_projection ::
  "(tag \<Rightarrow> arg list \<Rightarrow> error option) \<Rightarrow> node \<Rightarrow> expr \<Rightarrow> error + bool" where
  "validate_projection validate parent e =
     (case column_parts (op e) of
        Inl err \<Rightarrow> Inl err
      | Inr (tbl, name) \<Rightarrow>
          validate_projection_loop validate e tbl name (selections_of parent) False)"

text \<open>
  \<^verbatim>\<open>_PushdownValidate.get_result\<close>: every column reference that the traversal visits
  (with the type filter \<^verbatim>\<open>ir.Value\<close>) is validated; \<open>all_results\<close> is Python's
  \<^verbatim>\<open>all\<close> over the lazy sequence of results, which stops at the first \<^verbatim>\<open>False\<close> and
  at the first exception.
\<close>

definition validate_visitor ::
  "(tag \<Rightarrow> arg list \<Rightarrow> error option) \<Rightarrow> node \<Rightarrow> expr \<Rightarrow> bool \<times> (error + bool) option" where
  "validate_visitor validate parent e =
     (if node_tag (op e) = TableColumn then (True, Some (validate_projection validate parent e))
      else (True, None))"

fun all_results :: "(error + bool) list \<Rightarrow> error + bool" where
  "all_results [] = Inr True"
| "all_results (Inl err # rs) = Inl err"
| "all_results (Inr b # rs) = (if b then all_results rs else Inr False)"

definition pushdown_validate ::
  "(tag \<Rightarrow> arg list \<Rightarrow> error option) \<Rightarrow> node \<Rightarrow> expr \<Rightarrow> error + bool" where
  "pushdown_validate validate parent pred =
     (if is_reduction pred then Inr False
      else all_results (traverse (validate_visitor validate parent) [pred] is_value_expr True))"

text \<open>\<^verbatim>\<open>_can_pushdown\<close>: the first predicate that does not validate ends the loop.\<close>

fun can_pushdown ::
  "(tag \<Rightarrow> arg list \<Rightarrow> error option) \<Rightarrow> node \<Rightarrow> expr list \<Rightarrow> error + bool" where
  "can_pushdown validate parent [] = Inr True"
| "can_pushdown validate parent (pred # preds) =
     (case pushdown_validate validate parent pred of
        Inl err \<Rightarrow> Inl err
      | Inr predicate_is_valid \<Rightarrow>
          if \<not> predicate_is_valid then Inr False
          else can_pushdown validate parent preds)"

text \<open>A list comprehension whose body may raise: the first exception ends it.\<close>

fun map_raising :: "('a \<Rightarrow> error + 'b) \<Rightarrow> 'a list \<Rightarrow> error + 'b list" where
  "map_raising f [] = Inr []"
| "map_raising f (x # xs) =
     (case f x of
        Inl err \<Rightarrow> Inl err
      | Inr y \<Rightarrow> (case map_raising f xs of Inl err \<Rightarrow> Inl err | Inr ys \<Rightarrow> Inr (y # ys)))"

text \<open>
  \<^verbatim>\<open>_filter_selection\<close>. \<open>fuse_filter\<close> is the first attempt, made when the selection
  does not block: the predicates are rewritten with \<^verbatim>\<open>sub_for\<close> and, when they share
  all roots with the table, merged into a selection without a selection list. When
  that attempt is not made or does not succeed, \<^verbatim>\<open>_can_pushdown\<close> decides between
  pushing the simplified predicates into the selection and wrapping the expression in
  a new selection. \<^verbatim>\<open>to_expr()\<close> of a table node gives an unnamed table expression.
\<close>

definition fuse_filter ::
  "(node \<Rightarrow> bool) \<Rightarrow> (tag \<Rightarrow> arg list \<Rightarrow> error option) \<Rightarrow> expr \<Rightarrow> expr \<Rightarrow> expr list \<Rightarrow> expr list
     \<Rightarrow> expr list \<Rightarrow> error + expr option" where
  "fuse_filter blocks validate e tbl preds keys predicates =
     (if \<not> blocks (op e) then
        (case map_raising
                (\<lambda>predicate. if \<not> is_reduction predicate
                              then sub_for blocks validate predicate [(e, tbl)]
                              else Inr predicate) predicates of
           Inl err \<Rightarrow> Inl err
         | Inr simplified_predicates \<Rightarrow>
             if shares_all_roots blocks simplified_predicates [tbl] then
               (case construct validate Selection
                       [E tbl, L [], L (preds @ simplified_predicates), L keys] of
                  Inl err \<Rightarrow> Inl err
                | Inr result \<Rightarrow> Inr (Some (Expr Table result None)))
             else Inr None)
      else Inr None)"

definition filter_selection ::
  "(node \<Rightarrow> bool) \<Rightarrow> (tag \<Rightarrow> arg list \<Rightarrow> error option) \<Rightarrow> expr \<Rightarrow> expr list \<Rightarrow> error + expr" where
  "filter_selection blocks validate e predicates =
     (case args (op e) of
        [E tbl, L sels, L preds, L keys] \<Rightarrow>
          (case fuse_filter blocks validate e tbl preds keys predicates of
             Inl err \<Rightarrow> Inl err
           | Inr (Some fused) \<Rightarrow> Inr fused
           | Inr None \<Rightarrow>
               (case can_pushdown validate (op e) predicates of
                  Inl err \<Rightarrow> Inl err
                | Inr True \<Rightarrow>
                    (case map_raising (\<lambda>x. substitute_parents validate x True) predicates of
                       Inl err \<Rightarrow> Inl err
                     | Inr simplified_predicates \<Rightarrow>
                         (case construct validate Selection
                                 [E tbl, L sels, L (preds @ simplified_predicates), L keys] of
                            Inl err \<Rightarrow> Inl err
                          | Inr result \<Rightarrow> Inr (Expr Table result None)))
                | Inr False \<Rightarrow>
                    (case construct validate Selection [E e, L [], L predicates, L []] of
                       Inl err \<Rightarrow> Inl err
                     | Inr result \<Rightarrow> Inr (Expr Table result None))))
      | _ \<Rightarrow> Inl AttributeError)"

section \<open>The simplifier on nodes\<close>




section \<open>Reductions in filters\<close>

text \<open>
  \<^verbatim>\<open>toolz.unique\<close> as \<^verbatim>\<open>find_immediate_parent_tables\<close> uses it: the first occurrence
  of every item is kept, in order; \<open>seen\<close> holds the items met so far.
\<close>

fun unique_loop :: "'a list \<Rightarrow> 'a list \<Rightarrow> 'a list" where
  "unique_loop [] seen = []"
| "unique_loop (item # seq) seen =
     (if item \<in> set seen then unique_loop seq seen
      else item # unique_loop seq (item # seen))"

definition unique :: "'a list \<Rightarrow> 'a list" where
  "unique seq = unique_loop seq []"

text \<open>
  \<^verbatim>\<open>find_immediate_parent_tables\<close>: the visitor halts at every table expression and
  yields it, so the walk does not go below a table.
\<close>

definition finder :: "expr \<Rightarrow> bool \<times> expr option" where
  "finder e = (if is_table e then (False, Some e) else (True, None))"

definition find_immediate_parent_tables :: "expr \<Rightarrow> expr list" where
  "find_immediate_parent_tables e = unique (traverse finder [e] any_type True)"

text \<open>
  \<^verbatim>\<open>reduction_to_aggregation\<close> and \<^verbatim>\<open>_rewrite_filter_reduction\<close>. The methods
  \<^verbatim>\<open>table.aggregate\<close> and \<^verbatim>\<open>to_array\<close> of \<^verbatim>\<open>ibis.expr.types\<close> are not part of the
  sources and are the parameters \<open>aggregate\<close> and \<open>to_array\<close>; both may raise. The
  branch for any other number of parent tables, \<^verbatim>\<open>ScalarAggregate(expr).get_result()\<close>,
  builds its result with \<^verbatim>\<open>cross_join\<close> and \<^verbatim>\<open>projection\<close> of the same module and is
  the parameter \<open>scalar_aggregate\<close>.
\<close>

definition reduction_to_aggregation ::
  "(expr \<Rightarrow> expr list \<Rightarrow> error + expr) \<Rightarrow> (expr \<Rightarrow> error + expr) \<Rightarrow> expr \<Rightarrow> error + expr" where
  "reduction_to_aggregation aggregate scalar_aggregate e =
     (case find_immediate_parent_tables e of
        [table] \<Rightarrow> aggregate table [e]
      | _ \<Rightarrow> scalar_aggregate e)"

definition rewrite_filter_reduction ::
  "(expr \<Rightarrow> expr list \<Rightarrow> error + expr) \<Rightarrow> (expr \<Rightarrow> error + expr) \<Rightarrow> (expr \<Rightarrow> error + expr)
     \<Rightarrow> expr \<Rightarrow> string option \<Rightarrow> error + expr" where
  "rewrite_filter_reduction aggregate scalar_aggregate to_array e name =
     (case reduction_to_aggregation aggregate scalar_aggregate
             (case name of None \<Rightarrow> e | Some x \<Rightarrow> set_name e x) of
        Inl err \<Rightarrow> Inl err
      | Inr aggregation \<Rightarrow> to_array aggregation)"

text \<open>
  Modelled from the spec: instances of the two methods, to evaluate the rewrite on a
  concrete reduction. \<^verbatim>\<open>table.aggregate(metrics)\<close> builds an aggregation of the table
  without grouping; \<^verbatim>\<open>to_array\<close> views an aggregation with a single metric as an
  unnamed column (a \<^verbatim>\<open>TableArrayView\<close> of the aggregation), and raises for any other
  table.
\<close>

definition sample_aggregate :: "expr \<Rightarrow> expr list \<Rightarrow> error + expr" where
  "sample_aggregate tbl metrics =
     Inr (Expr Table (Node Aggregation [E tbl, L metrics, L [], L []]) None)"

definition sample_to_array :: "expr \<Rightarrow> error + expr" where
  "sample_to_array tbl =
     (if node_tag (op tbl) = Aggregation then
        (case args (op tbl) of
           [E x, L [metric], L [], L having] \<Rightarrow>
             Inr (Expr Column (Node (OtherOp ''TableArrayView'') [E tbl]) None)
         | _ \<Rightarrow> Inl ExpressionError)
      else Inl ExpressionError)"

definition reduction :: "expr \<Rightarrow> expr" where
  "reduction arg = Expr Scalar (Node Reduction [E arg]) None"

section \<open>Projection fusion\<close>

text \<open>
  \<^verbatim>\<open>Projector\<close>. The record is the object that \<^verbatim>\<open>__init__\<close> builds. The methods
  \<^verbatim>\<open>_ensure_expr\<close> (which resolves a candidate against a table) and
  \<^verbatim>\<open>root_tables\<close> are not part of the sources and are the parameters \<open>ensure_expr\<close> and
  \<open>root_tables\<close>. \<^verbatim>\<open>windowize_function\<close> rests on \<^verbatim>\<open>over\<close> and on the window
  constructors, which are not part of the sources either; the constructor alone applies
  it, and it is the parameter \<open>windowize_function\<close>.
\<close>

record projector =
  parent :: expr
  input_exprs :: "expr list"
  resolved_exprs :: "expr list"
  parent_roots :: "node list"
  clean_exprs :: "expr list"

definition projector_init ::
  "(expr \<Rightarrow> expr \<Rightarrow> error + expr) \<Rightarrow> (expr \<Rightarrow> error + expr) \<Rightarrow> (node \<Rightarrow> node list) \<Rightarrow> expr
     \<Rightarrow> expr list \<Rightarrow> error + projector" where
  "projector_init ensure_expr windowize_function root_tables parent_expr proj_exprs =
     (case map_raising (ensure_expr parent_expr) proj_exprs of
        Inl err \<Rightarrow> Inl err
      | Inr resolved \<Rightarrow>
          (case map_raising windowize_function resolved of
             Inl err \<Rightarrow> Inl err
           | Inr clean \<Rightarrow>
               Inr \<lparr>parent = parent_expr, input_exprs = proj_exprs,
                    resolved_exprs = resolved,
                    parent_roots =
                      (if node_tag (op parent_expr) = Selection then [op parent_expr]
                       else root_tables (op parent_expr)),
                    clean_exprs = clean\<rparr>))"

text \<open>
  The test for a \<^verbatim>\<open>*\<close> projection in \<^verbatim>\<open>try_fusion\<close>: the candidate is a table
  expression and either its node equals the parent's node or it has the single root of
  the table below the parent. The identity test \<^verbatim>\<open>is\<close> between the two roots is the
  parameter \<open>identical\<close>; indexing an empty list of roots raises (\<open>OtherError\<close>).
\<close>

definition is_star_projection ::
  "(node \<Rightarrow> node list) \<Rightarrow> (node \<Rightarrow> node \<Rightarrow> bool) \<Rightarrow> node \<Rightarrow> node list \<Rightarrow> expr \<Rightarrow> error + bool" where
  "is_star_projection root_tables identical parent_op roots val =
     (if \<not> is_table val then Inr False
      else if parent_op = op val then Inr True
      else if length roots = 1 then
        (case root_tables (op val) of
           [] \<Rightarrow> Inl OtherError
         | r # rs \<Rightarrow> Inr (identical r (hd roots)))
      else Inr False)"

text \<open>
  The inner loop of the \<^verbatim>\<open>*\<close> projection over the selections of the parent: the
  table itself is not added twice. Modelled from the spec: two expressions are equal
  (\<^verbatim>\<open>equals\<close>) iff their nodes are.
\<close>

fun star_loop :: "expr \<Rightarrow> expr list \<Rightarrow> expr list \<Rightarrow> bool \<Rightarrow> expr list \<times> bool" where
  "star_loop root_table [] fused_exprs have_root = (fused_exprs, have_root)"
| "star_loop root_table (root_sel # root_sels) fused_exprs have_root =
     (if op root_sel = op root_table then
        star_loop root_table root_sels (fused_exprs @ [root_table]) True
      else star_loop root_table root_sels (fused_exprs @ [root_sel]) have_root)"

text \<open>
  The loop of \<^verbatim>\<open>try_fusion\<close> over the candidates, with the state
  (\<^verbatim>\<open>fused_exprs\<close>, \<^verbatim>\<open>can_fuse\<close>). The \<^verbatim>\<open>break\<close> leaves the loop with
  \<^verbatim>\<open>can_fuse = False\<close>.
\<close>

fun fuse_loop ::
  "(node \<Rightarrow> bool) \<Rightarrow> (tag \<Rightarrow> arg list \<Rightarrow> error option) \<Rightarrow> (node \<Rightarrow> node list)
     \<Rightarrow> (node \<Rightarrow> node \<Rightarrow> bool) \<Rightarrow> node \<Rightarrow> expr \<Rightarrow> node list \<Rightarrow> expr list
     \<Rightarrow> expr list \<Rightarrow> expr list \<Rightarrow> bool \<Rightarrow> error + (expr list \<times> bool)" where
  "fuse_loop blocks validate root_tables identical parent_op root_table roots root_selections
      [] fused_exprs can_fuse = Inr (fused_exprs, can_fuse)"
| "fuse_loop blocks validate root_tables identical parent_op root_table roots root_selections
      (val # vals) fused_exprs can_fuse =
     (case substitute_parents validate val False of
        Inl err \<Rightarrow> Inl err
      | Inr lifted_val \<Rightarrow>
          (case is_star_projection root_tables identical parent_op roots val of
             Inl err \<Rightarrow> Inl err
           | Inr True \<Rightarrow>
               (case star_loop root_table root_selections fused_exprs False of
                  (fused, have_root) \<Rightarrow>
                    fuse_loop blocks validate root_tables identical parent_op root_table roots
                      root_selections vals
                      (if \<not> have_root \<and> root_selections = [] then root_table # fused
                       else fused)
                      True)
           | Inr False \<Rightarrow>
               if shares_all_roots blocks [lifted_val] [root_table] then
                 fuse_loop blocks validate root_tables identical parent_op root_table roots
                   root_selections vals (fused_exprs @ [lifted_val]) True
               else if \<not> shares_all_roots blocks [val] [root_table] then
                 Inr (fused_exprs, False)
               else
                 fuse_loop blocks validate root_tables identical parent_op root_table roots
                   root_selections vals (fused_exprs @ [val]) can_fuse))"

text \<open>
  The candidates as \<^verbatim>\<open>try_fusion\<close> resolves them against the table below the parent:
  \<open>None\<close> stands for the early \<^verbatim>\<open>return None\<close> when a resolved candidate differs from
  the clean one. Only \<^verbatim>\<open>AttributeError\<close> and \<^verbatim>\<open>IbisTypeError\<close> are caught.
\<close>

definition fusion_candidates ::
  "(expr \<Rightarrow> expr \<Rightarrow> error + expr) \<Rightarrow> projector \<Rightarrow> expr \<Rightarrow> error + expr list option" where
  "fusion_candidates ensure_expr p root_table =
     (if node_tag (op root_table) \<noteq> Join then
        (case map_raising (ensure_expr root_table) (input_exprs p) of
           Inl err \<Rightarrow>
             if err = AttributeError \<or> err = IbisTypeError then Inr (Some (clean_exprs p))
             else Inl err
         | Inr resolved \<Rightarrow>
             if list_ex (\<lambda>(res_root_root, res_root). op res_root_root \<noteq> op res_root)
                  (zip resolved (clean_exprs p))
             then Inr None
             else Inr (Some resolved))
      else Inr (Some (clean_exprs p)))"

text \<open>
  \<^verbatim>\<open>Projector.try_fusion\<close>; the result \<open>None\<close> is ``no fusion''. A failed
  \<^verbatim>\<open>assert\<close> is \<open>OtherError\<close>, a selection node without its four arguments cannot be
  built in Python and the model answers \<open>AttributeError\<close>.
\<close>

definition try_fusion ::
  "(node \<Rightarrow> bool) \<Rightarrow> (tag \<Rightarrow> arg list \<Rightarrow> error option) \<Rightarrow> (expr \<Rightarrow> expr \<Rightarrow> error + expr)
     \<Rightarrow> (node \<Rightarrow> node list) \<Rightarrow> (node \<Rightarrow> node \<Rightarrow> bool) \<Rightarrow> projector \<Rightarrow> node
     \<Rightarrow> error + node option" where
  "try_fusion blocks validate ensure_expr root_tables identical p root =
     (if op (parent p) \<noteq> root then Inl OtherError
      else
        (case args root of
           [E root_table, L root_selections, L preds, L keys] \<Rightarrow>
             (case fusion_candidates ensure_expr p root_table of
                Inl err \<Rightarrow> Inl err
              | Inr None \<Rightarrow> Inr None
              | Inr (Some resolved) \<Rightarrow>
                  if resolved = [] then Inr None
                  else
                    (case fuse_loop blocks validate root_tables identical (op (parent p))
                            root_table (root_tables (op root_table)) root_selections
                            resolved [] False of
                       Inl err \<Rightarrow> Inl err
                     | Inr (fused_exprs, can_fuse) \<Rightarrow>
                         if can_fuse then
                           (case construct validate Selection
                                   [E root_table, L fused_exprs, L preds, L keys] of
                              Inl err \<Rightarrow> Inl err
                            | Inr fused_op \<Rightarrow> Inr (Some fused_op))
                         else Inr None))
         | _ \<Rightarrow> Inl AttributeError))"

text \<open>
  \<^verbatim>\<open>Projector.get_result\<close>: without a fused node the result is a new selection over
  the parent with the clean candidates. \<^verbatim>\<open>roots[0]\<close> of an empty list raises.
\<close>

definition projector_get_result ::
  "(node \<Rightarrow> bool) \<Rightarrow> (tag \<Rightarrow> arg list \<Rightarrow> error option) \<Rightarrow> (expr \<Rightarrow> expr \<Rightarrow> error + expr)
     \<Rightarrow> (node \<Rightarrow> node list) \<Rightarrow> (node \<Rightarrow> node \<Rightarrow> bool) \<Rightarrow> projector \<Rightarrow> error + node" where
  "projector_get_result blocks validate ensure_expr root_tables identical p =
     (case parent_roots p of
        [] \<Rightarrow> Inl OtherError
      | first_root # more_roots \<Rightarrow>
          (case (if more_roots = [] \<and> node_tag first_root = Selection
                 then try_fusion blocks validate ensure_expr root_tables identical p first_root
                 else Inr None) of
             Inl err \<Rightarrow> Inl err
           | Inr (Some fused_op) \<Rightarrow> Inr fused_op
           | Inr None \<Rightarrow>
               construct validate Selection [E (parent p), L (clean_exprs p), L [], L []]))"

text \<open>
  Modelled from the spec: instances of the parameters, to evaluate the fusion on
  concrete expressions. A candidate that is an expression already resolves to itself;
  the instance of \<^verbatim>\<open>windowize_function\<close> is used on expressions without reductions,
  analytic functions and windows, which the function returns as they are; the root
  tables of a node are the ones that \<^verbatim>\<open>shares_all_roots\<close> compares.
\<close>

definition sample_ensure_expr :: "expr \<Rightarrow> expr \<Rightarrow> error + expr" where
  "sample_ensure_expr tbl e = Inr e"

definition sample_windowize :: "expr \<Rightarrow> error + expr" where
  "sample_windowize e = Inr e"

definition sample_root_tables :: "node \<Rightarrow> node list" where
  "sample_root_tables n =
     traverse (find_root_table sample_blocks) [Expr Table n None] any_type True"

section \<open>Substitution on objects\<close>

text \<open>
  \<^verbatim>\<open>Substitutor\<close> with the objects of Python. An expression object has an identity
  (the first component), which the test \<^verbatim>\<open>new_arg is arg\<close> compares; \<open>forget\<close> gives the
  expression that the object holds.
\<close>

datatype oarg = OE obj | OL "obj list" | OS string | ONames "string list" | ONoneArg
and obj = Obj nat category tag "oarg list" "string option"

fun ident :: "obj \<Rightarrow> nat" where
  "ident (Obj i c t as nm) = i"

fun forget :: "obj \<Rightarrow> expr"
and forget_args :: "oarg list \<Rightarrow> arg list"
and forget_list :: "obj list \<Rightarrow> expr list"
where
  "forget (Obj i c t as nm) = Expr c (Node t (forget_args as)) nm"
| "forget_args [] = []"
| "forget_args (OE x # as) = E (forget x) # forget_args as"
| "forget_args (OL xs # as) = L (forget_list xs) # forget_args as"
| "forget_args (OS s # as) = S s # forget_args as"
| "forget_args (ONames cs # as) = Names cs # forget_args as"
| "forget_args (ONoneArg # as) = NoneArg # forget_args as"
| "forget_list [] = []"
| "forget_list (x # xs) = forget x # forget_list xs"

text \<open>
  The state of one \<^verbatim>\<open>Substitutor\<close>: the cache of \<^verbatim>\<open>toolz.memoize\<close> that
  \<^verbatim>\<open>__init__\<close> creates, and the identity that the next new object gets. Modelled from
  the spec: the key \<^verbatim>\<open>expr._key\<close> of the cache is not part of the sources; equality of
  expressions is structural and underlies all caching, so the key of an object is the
  expression it holds.
\<close>

record substitutor =
  cache :: "(expr \<times> obj) list"
  next_ident :: nat

text \<open>
  \<open>substitute_obj\<close> is \<^verbatim>\<open>self.substitute\<close>, that is \<^verbatim>\<open>_substitute\<close> behind the cache: a
  key that is in the cache answers with the cached object, and the result of a call that
  returns is stored under the key of its argument. \<open>substitute_oargs\<close> is the loop over
  the arguments with the flag \<^verbatim>\<open>unchanged\<close>. A rebuilt expression is a new object.
\<close>

fun substitute_obj ::
  "(node \<Rightarrow> bool) \<Rightarrow> (tag \<Rightarrow> arg list \<Rightarrow> error option) \<Rightarrow> (node \<rightharpoonup> obj) \<Rightarrow> obj \<Rightarrow> substitutor
     \<Rightarrow> (error + obj) \<times> substitutor"
and substitute_oargs ::
  "(node \<Rightarrow> bool) \<Rightarrow> (tag \<Rightarrow> arg list \<Rightarrow> error option) \<Rightarrow> (node \<rightharpoonup> obj) \<Rightarrow> oarg list
     \<Rightarrow> substitutor \<Rightarrow> (error + oarg list \<times> bool) \<times> substitutor"
where
  "substitute_obj blocks validate mapping (Obj i c t as nm) s =
     (case map_of (cache s) (forget (Obj i c t as nm)) of
        Some cached \<Rightarrow> (Inr cached, s)
      | None \<Rightarrow>
          (case (case mapping (Node t (forget_args as)) of
                   Some v \<Rightarrow> (Inr v, s)
                 | None \<Rightarrow>
                     if blocks (Node t (forget_args as)) then (Inr (Obj i c t as nm), s)
                     else
                       (case substitute_oargs blocks validate mapping as s of
                          (Inl err, s') \<Rightarrow> (Inl err, s')
                        | (Inr (new_args, unchanged), s') \<Rightarrow>
                            if unchanged then (Inr (Obj i c t as nm), s')
                            else
                              (case construct validate t (forget_args new_args) of
                                 Inl IbisTypeError \<Rightarrow> (Inr (Obj i c t as nm), s')
                               | Inl err \<Rightarrow> (Inl err, s')
                               | Inr new_node \<Rightarrow>
                                   (Inr (Obj (next_ident s') c t new_args nm),
                                    s'\<lparr>next_ident := Suc (next_ident s')\<rparr>)))) of
             (Inl err, s') \<Rightarrow> (Inl err, s')
           | (Inr result, s') \<Rightarrow>
               (Inr result, s'\<lparr>cache := (forget (Obj i c t as nm), result) # cache s'\<rparr>)))"
| "substitute_oargs blocks validate mapping [] s = (Inr ([], True), s)"
| "substitute_oargs blocks validate mapping (OE arg # as) s =
     (case substitute_obj blocks validate mapping arg s of
        (Inl err, s') \<Rightarrow> (Inl err, s')
      | (Inr new_arg, s') \<Rightarrow>
          (case substitute_oargs blocks validate mapping as s' of
             (Inl err, s'') \<Rightarrow> (Inl err, s'')
           | (Inr (new_args, unchanged), s'') \<Rightarrow>
               (Inr (OE new_arg # new_args, ident new_arg = ident arg \<and> unchanged), s'')))"
| "substitute_oargs blocks validate mapping (a # as) s =
     (case substitute_oargs blocks validate mapping as s of
        (Inl err, s') \<Rightarrow> (Inl err, s')
      | (Inr (new_args, unchanged), s') \<Rightarrow> (Inr (a # new_args, unchanged), s'))"

text \<open>
  \<^verbatim>\<open>t.a + t.a\<close> as Python builds it: the table \<^verbatim>\<open>t\<close> is one object, and each of the two
  \<^verbatim>\<open>t.a\<close> is an object of its own.
\<close>

definition table_object :: obj where
  "table_object = Obj 0 Table PhysicalTable [OS ''t'', ONames [''a'', ''b'']] None"

definition column_object :: "nat \<Rightarrow> obj" where
  "column_object i = Obj i Column TableColumn [OE table_object, OS ''a''] (Some ''a'')"

definition sum_object :: obj where
  "sum_object = Obj 3 Column (ValueOp ''add'') [OE (column_object 1), OE (column_object 2)] None"

section \<open>Properties of substitution\<close>

lemma substitute_no_type_error_both:
  "substitute blocks validate mapping e \<noteq> Inl IbisTypeError"
  "substitute_args blocks validate mapping as \<noteq> Inl IbisTypeError"
  by (induction blocks validate mapping e and blocks validate mapping as
      rule: substitute_substitute_args.induct)
    (auto split: option.splits sum.splits error.splits)

lemma substitute_total_both:
  "(\<forall>t as. validate t as = None \<or> validate t as = Some IbisTypeError) \<Longrightarrow>
     \<exists>r. substitute blocks validate mapping e = Inr r"
  "(\<forall>t as. validate t as = None \<or> validate t as = Some IbisTypeError) \<Longrightarrow>
     \<exists>rs. substitute_args blocks validate mapping as = Inr rs"
proof (induction blocks validate mapping e and blocks validate mapping as
    rule: substitute_substitute_args.induct)
  case (1 blocks validate mapping c t as nm)
  show ?case
  proof (cases "mapping (Node t as) = None \<and> \<not> blocks (Node t as)")
    case True
    with 1(1) [OF _ _ 1(2)] obtain rs
      where rs: "substitute_args blocks validate mapping as = Inr rs"
      by auto
    from 1(2) have "validate t rs = None \<or> validate t rs = Some IbisTypeError"
      by blast
    then show ?thesis
      using True rs by (auto simp: construct_def)
  next
    case False
    then show ?thesis by (auto split: option.splits)
  qed
qed (auto split: sum.splits)

lemma substitute_empty_both:
  "substitute blocks validate Map.empty e = Inr e"
  "substitute_args blocks validate Map.empty as = Inr as"
  by (induction blocks validate "Map.empty :: node \<rightharpoonup> expr" e
        and blocks validate "Map.empty :: node \<rightharpoonup> expr" as
      rule: substitute_substitute_args.induct) auto

text \<open>
  Claim C1. When the constructor raises \<^verbatim>\<open>IbisTypeError\<close> for the substituted
  arguments of a node, \<^verbatim>\<open>substitute\<close> returns the original expression of that node;
  and no call of \<^verbatim>\<open>substitute\<close> ever ends in an \<^verbatim>\<open>IbisTypeError\<close>.
\<close>

theorem substitute_type_error_fail_soft:
  "(mapping (Node t as) = None \<longrightarrow> \<not> blocks (Node t as) \<longrightarrow>
      substitute_args blocks validate mapping as = Inr new_args \<longrightarrow> new_args \<noteq> as \<longrightarrow>
      validate t new_args = Some IbisTypeError \<longrightarrow>
      substitute blocks validate mapping (Expr c (Node t as) nm) = Inr (Expr c (Node t as) nm))
   \<and> substitute blocks validate mapping e \<noteq> Inl IbisTypeError"
  by (simp add: construct_def substitute_no_type_error_both)

theorem substitute_type_error_fail_soft_witness:
  "substitute_args sample_blocks sample_rules [op t1 \<mapsto> literal ''1''] [E t1, S ''a'']
     = Inr [E (literal ''1''), S ''a'']
   \<and> sample_rules TableColumn [E (literal ''1''), S ''a''] = Some IbisTypeError
   \<and> substitute sample_blocks sample_rules [op t1 \<mapsto> literal ''1''] (column t1 ''a'')
     = Inr (column t1 ''a'')"
proof -
  let ?m = "[op t1 \<mapsto> literal ''1'']"
  have h1: "?m (Node TableColumn [E t1, S ''a'']) = None"
    by (simp add: t1_def physical_def)
  have h2: "\<not> sample_blocks (Node TableColumn [E t1, S ''a''])"
    by (simp add: sample_blocks_def)
  have h3: "substitute_args sample_blocks sample_rules ?m [E t1, S ''a'']
              = Inr [E (literal ''1''), S ''a'']"
    by (simp add: t1_def physical_def)
  have h4: "[E (literal ''1''), S ''a''] \<noteq> [E t1, S ''a'']"
    by (simp add: t1_def physical_def literal_def)
  have h5: "sample_rules TableColumn [E (literal ''1''), S ''a''] = Some IbisTypeError"
    by (simp add: sample_rules_def literal_def)
  from substitute_type_error_fail_soft
    [of ?m TableColumn "[E t1, S ''a'']" sample_blocks sample_rules
        "[E (literal ''1''), S ''a'']" Column "Some ''a''"]
  have "substitute sample_blocks sample_rules ?m (column t1 ''a'') = Inr (column t1 ''a'')"
    using h1 h2 h3 h4 h5 unfolding column_def by blast
  with h3 h5 show ?thesis by simp
qed

text \<open>
  Claim C10. The mapping is looked up before \<^verbatim>\<open>blocks()\<close> is asked: an expression
  whose node blocks and is a key of the mapping is replaced by the mapped expression.
\<close>

theorem substitute_blocking_root_replaced:
  assumes "blocks (op e)" and "mapping (op e) = Some r"
  shows "substitute blocks validate mapping e = Inr r"
proof (cases e)
  case (Expr c n nm)
  with assms show ?thesis by (cases n) auto
qed

theorem substitute_blocking_root_replaced_witness:
  "sample_blocks (op t1) \<and> [op t1 \<mapsto> t2] (op t1) = Some t2
   \<and> substitute sample_blocks sample_rules [op t1 \<mapsto> t2] t1 = Inr t2"
proof -
  have h1: "sample_blocks (op t1)"
    by (simp add: sample_blocks_def t1_def physical_def)
  have h2: "[op t1 \<mapsto> t2] (op t1) = Some t2"
    by simp
  from substitute_blocking_root_replaced
    [of sample_blocks t1 "[op t1 \<mapsto> t2]" t2 sample_rules, OF h1 h2] h1 h2
  show ?thesis by blast
qed

lemma subexprs_size_all:
  "y \<in> set (subexprs e) \<Longrightarrow> size (op y) < size (op e)"
  "y \<in> set (subexprs_args as) \<Longrightarrow> size (op y) < Suc (size_list size as)"
  "y \<in> set (subexprs_list es) \<Longrightarrow> size (op y) < Suc (size_list size es)"
proof (induction e and as and es rule: subexprs_subexprs_args_subexprs_list.induct)
  case (1 c t as nm)
  then show ?case by auto
next
  case (3 e as)
  then show ?case by (cases e) auto
next
  case (4 es as)
  then show ?case by auto
next
  case (7 e es)
  then show ?case by (cases e) auto
qed auto

lemma nth_size_list:
  "i < length xs \<Longrightarrow> f (xs ! i) < Suc (size_list f xs)"
proof (induction xs arbitrary: i)
  case Nil
  then show ?case by simp
next
  case (Cons x xs)
  show ?case
  proof (cases i)
    case 0
    then show ?thesis by simp
  next
    case (Suc k)
    with Cons.prems have "k < length xs" by simp
    from Cons.IH [OF this] Suc show ?thesis by simp
  qed
qed

lemma child_size:
  assumes "child e ij = Some y"
  shows "size (op y) < size (op e)"
proof (cases e)
  case (Expr c n nm)
  show ?thesis
  proof (cases n)
    case (Node t as)
    obtain i j where ij: "ij = (i, j)" by (cases ij)
    from assms Expr Node ij have i: "i < length as"
      by (auto split: if_splits)
    from nth_size_list [OF i, of size] have a: "size (as ! i) < Suc (size_list size as)" .
    show ?thesis
    proof (cases "as ! i")
      case (E x)
      with assms Expr Node ij i have "y = x" by (auto split: if_splits)
      with a E Expr Node show ?thesis by (cases x) auto
    next
      case (L xs)
      with assms Expr Node ij i have j: "j < length xs" "y = xs ! j"
        by (auto split: if_splits)
      from nth_size_list [OF j(1), of size] have "size y < Suc (size_list size xs)"
        using j by simp
      with a L Expr Node show ?thesis by (cases y) auto
    qed (use assms Expr Node ij i in auto)
  qed
qed

lemma at_path_size:
  "at_path e p = Some x \<Longrightarrow> size (op x) \<le> size (op e)"
proof (induction p arbitrary: e)
  case Nil
  then show ?case by simp
next
  case (Cons ij p)
  then obtain y where y: "child e ij = Some y" "at_path y p = Some x"
    by (auto split: option.splits)
  from Cons.IH [OF y(2)] child_size [OF y(1)] show ?case by simp
qed

lemma substitute_args_rel:
  "substitute_args blocks validate mapping as = Inr as' \<Longrightarrow>
     list_all2 (arg_subst blocks validate mapping) as as'"
proof (induction as arbitrary: as')
  case Nil
  then show ?case by simp
next
  case (Cons a as)
  show ?case
  proof (cases "substitute_args blocks validate mapping as")
    case (Inl err)
    with Cons.prems show ?thesis by (cases a) (simp_all split: sum.splits)
  next
    case (Inr rest)
    note ih = Cons.IH [OF Inr]
    show ?thesis
    proof (cases a)
      case (E y)
      show ?thesis
      proof (cases "substitute blocks validate mapping y")
        case (Inl err)
        with Cons.prems E show ?thesis by simp
      next
        case r: (Inr y')
        with Cons.prems E Inr have "as' = E y' # rest" by simp
        with ih E r show ?thesis by (simp add: arg_subst_def)
      qed
    next
      case (L xs)
      with Cons.prems Inr have "as' = a # rest" by simp
      with ih L show ?thesis by (simp add: arg_subst_def)
    next
      case (S s)
      with Cons.prems Inr have "as' = a # rest" by simp
      with ih S show ?thesis by (simp add: arg_subst_def)
    next
      case (Names ns)
      with Cons.prems Inr have "as' = a # rest" by simp
      with ih Names show ?thesis by (simp add: arg_subst_def)
    next
      case NoneArg
      with Cons.prems Inr have "as' = a # rest" by simp
      with ih NoneArg show ?thesis by (simp add: arg_subst_def)
    qed
  qed
qed

lemma substitute_result:
  assumes "substitute blocks validate mapping (Expr c (Node t as) nm) = Inr e'"
    and "mapping (Node t as) = None"
  shows "e' = Expr c (Node t as) nm \<or>
         (\<exists>as'. substitute_args blocks validate mapping as = Inr as'
                \<and> e' = Expr c (Node t as') nm)"
proof (cases "blocks (Node t as)")
  case True
  with assms show ?thesis by simp
next
  case False
  show ?thesis
  proof (cases "substitute_args blocks validate mapping as")
    case (Inl err)
    with assms False show ?thesis by simp
  next
    case (Inr as')
    show ?thesis
    proof (cases "as' = as")
      case True
      with assms False Inr show ?thesis by simp
    next
      case ne: False
      show ?thesis
      proof (cases "validate t as'")
        case None
        with assms False Inr ne show ?thesis by (simp add: construct_def)
      next
        case (Some err)
        with assms False Inr ne show ?thesis
          by (cases err) (simp_all add: construct_def)
      qed
    qed
  qed
qed

text \<open>
  Claim C2. Let \<open>x\<close> be a subexpression of \<open>e\<close> (at position \<open>p\<close>) whose node blocks,
  and let every key of the mapping be a node strictly inside \<open>x\<close>. Then the result of
  \<^verbatim>\<open>substitute\<close> has \<open>x\<close>, with everything inside it, at the same position: the
  recursion stops at the blocking node.
\<close>

theorem substitute_blocking_boundary:
  assumes "at_path e p = Some x"
    and "blocks (op x)"
    and "dom mapping \<subseteq> op ` set (subexprs x)"
    and "substitute blocks validate mapping e = Inr e'"
  shows "at_path e' p = Some x"
  using assms(1,4)
proof (induction p arbitrary: e e')
  case Nil
  then have "e = x" by simp
  have "mapping (op x) = None"
  proof (rule ccontr)
    assume "mapping (op x) \<noteq> None"
    with assms(3) obtain y where "y \<in> set (subexprs x)" "op y = op x" by force
    with subexprs_size_all(1) [of y x] show False by simp
  qed
  with assms(2) Nil \<open>e = x\<close> have "e' = x"
    by (cases x; cases "op x") auto
  then show ?case by simp
next
  case (Cons ij p)
  then obtain y where y: "child e ij = Some y" "at_path y p = Some x"
    by (auto split: option.splits)
  obtain c t as nm where e: "e = Expr c (Node t as) nm"
    by (cases e; cases "op e") auto
  obtain i j where ij: "ij = (i, j)" by (cases ij)
  have none: "mapping (Node t as) = None"
  proof (rule ccontr)
    assume "mapping (Node t as) \<noteq> None"
    with assms(3) obtain z where z: "z \<in> set (subexprs x)" "op z = Node t as" by force
    from at_path_size [OF y(2)] child_size [OF y(1)] e
    have "size (op x) < size (Node t as)" by simp
    with subexprs_size_all(1) [OF z(1)] z(2) show False by simp
  qed
  show ?case
  proof (cases "e' = e")
    case True
    with Cons.prems(1) show ?thesis by simp
  next
    case False
    with substitute_result [OF Cons.prems(2) [unfolded e] none] e obtain as' where as':
      "substitute_args blocks validate mapping as = Inr as'"
      "e' = Expr c (Node t as') nm"
      by blast
    from substitute_args_rel [OF as'(1)]
    have rel: "list_all2 (arg_subst blocks validate mapping) as as'" .
    from y(1) e ij have i: "i < length as" by (auto split: if_splits)
    from list_all2_nthD [OF rel i]
    have ai: "arg_subst blocks validate mapping (as ! i) (as' ! i)" .
    from list_all2_lengthD [OF rel] i have i': "i < length as'" by simp
    show ?thesis
    proof (cases "as ! i")
      case (E z)
      with y(1) e ij i have "z = y" "j = 0" by (auto split: if_splits)
      with ai E obtain y' where y': "as' ! i = E y'"
        "substitute blocks validate mapping y = Inr y'"
        by (auto simp: arg_subst_def)
      from Cons.IH [OF y(2) y'(2)] have "at_path y' p = Some x" .
      with y'(1) as'(2) ij i' \<open>j = 0\<close> show ?thesis by simp
    next
      case (L zs)
      with ai have "as' ! i = L zs" by (simp add: arg_subst_def)
      moreover from y(1) L e ij i have "j < length zs" "zs ! j = y"
        by (auto split: if_splits)
      ultimately show ?thesis using y(2) ij i' as'(2) by simp
    next
      case (S s)
      with y(1) e ij i show ?thesis by simp
    next
      case (Names ns)
      with y(1) e ij i show ?thesis by simp
    next
      case NoneArg
      with y(1) e ij i show ?thesis by simp
    qed
  qed
qed

theorem substitute_blocking_boundary_witness:
  "at_path (binop ''gt'' (column t1 ''a'') (column (selection t1 [t1] [] []) ''a'')) [(1, 0), (0, 0)]
     = Some (selection t1 [t1] [] [])
   \<and> sample_blocks (op (selection t1 [t1] [] []))
   \<and> dom [op t1 \<mapsto> t2] \<subseteq> op ` set (subexprs (selection t1 [t1] [] []))
   \<and> substitute sample_blocks sample_rules [op t1 \<mapsto> t2]
         (binop ''gt'' (column t1 ''a'') (column (selection t1 [t1] [] []) ''a''))
       = Inr (binop ''gt'' (column t2 ''a'') (column (selection t1 [t1] [] []) ''a''))
   \<and> at_path (binop ''gt'' (column t2 ''a'') (column (selection t1 [t1] [] []) ''a''))
         [(1, 0), (0, 0)]
       = Some (selection t1 [t1] [] [])"
proof -
  let ?s = "selection t1 [t1] [] []"
  let ?e = "binop ''gt'' (column t1 ''a'') (column ?s ''a'')"
  let ?e' = "binop ''gt'' (column t2 ''a'') (column ?s ''a'')"
  have h1: "at_path ?e [(1, 0), (0, 0)] = Some ?s"
    by (simp add: binop_def column_def)
  have h2: "sample_blocks (op ?s)"
    by (simp add: sample_blocks_def selection_def)
  have h3: "dom [op t1 \<mapsto> t2] \<subseteq> op ` set (subexprs ?s)"
    by (simp add: selection_def)
  have h4: "substitute sample_blocks sample_rules [op t1 \<mapsto> t2] ?e = Inr ?e'"
    by (simp add: binop_def column_def selection_def t1_def t2_def physical_def
        sample_blocks_def sample_rules_def construct_def)
  from substitute_blocking_boundary [OF h1 h2 h3 h4] h1 h2 h3 h4
  show ?thesis by simp
qed

section \<open>Properties of the simplifier\<close>

lemma lift_physical:
  "node_tag (op val) = PhysicalTable \<Longrightarrow> lift v b val = Inr val"
proof (cases val)
  case (Expr c n nm)
  assume "node_tag (op val) = PhysicalTable"
  with Expr show ?thesis
    by (cases n) (simp add: is_value_def is_table_node_def)
qed

lemma lift_root_result:
  "lift_root v name sels acc = Inr (Some r) \<Longrightarrow>
     acc = Some r \<or> (r \<in> set sels \<and> node_tag (op r) = PhysicalTable \<and> name \<in> set (schema_names (op r)))"
  by (induction sels arbitrary: acc) (auto simp: lift_physical split: if_splits)

lemma lift_root_total:
  "\<exists>r. lift_root v name sels acc = Inr r"
  by (induction sels arbitrary: acc) (auto simp: lift_physical)

lemma lift_TableColumn_result:
  assumes "lift_TableColumn v b e = Inr r" and "r \<noteq> e"
  shows "\<exists>c val name. r = Expr c (Node TableColumn [E val, S name]) (Some name)
           \<and> node_tag (op val) = PhysicalTable \<and> \<not> b"
proof (cases e)
  case (Expr c n nm)
  then show ?thesis
    using assms
    by (cases n)
      (auto simp: construct_def split: list.splits arg.splits if_splits sum.splits option.splits
        expr.splits node.splits
        dest!: lift_root_result)
qed


declare lift_TableColumn.simps [simp del]

lemma get_result_tag:
  assumes "get_result v b e = Inr e'"
  shows "node_tag (op e') = node_tag (op e)"
proof (cases e)
  case (Expr c n nm)
  show ?thesis
  proof (cases n)
    case (Node t as)
    show ?thesis
    proof (cases "t = TableColumn \<and> (\<exists>r. lift_TableColumn v b e = Inr r \<and> r \<noteq> e)")
      case True
      then obtain r where r: "lift_TableColumn v b e = Inr r" "r \<noteq> e" by blast
      with True assms Expr Node have "e' = r" by simp
      with lift_TableColumn_result [OF r] True Expr Node show ?thesis by auto
    next
      case False
      with assms Expr Node show ?thesis
        by (auto simp: construct_def split: if_splits sum.splits option.splits)
    qed
  qed
qed

declare get_result.simps [simp del]

lemma lift_tag:
  assumes "lift v b e = Inr e'"
  shows "node_tag (op e') = node_tag (op e)"
proof (cases e)
  case (Expr c n nm)
  with assms show ?thesis
    by (cases n) (auto split: if_splits dest: get_result_tag)
qed


lemma get_result_generic:
  assumes "t \<noteq> Literal" and "t \<noteq> Selection"
    and "t = TableColumn \<Longrightarrow>
           lift_TableColumn v b (Expr c (Node t as) nm) = Inr (Expr c (Node t as) nm)"
  shows "get_result v b (Expr c (Node t as) nm) =
           (case lift_args v b as of
              Inl err \<Rightarrow> Inl err
            | Inr lifted_args \<Rightarrow>
                if lifted_args = as then Inr (Expr c (Node t as) nm)
                else (case construct v t lifted_args of
                        Inl err \<Rightarrow> Inl err
                      | Inr lifted_node \<Rightarrow>
                          Inr (Expr c lifted_node (if c \<noteq> Table then nm else None))))"
proof (cases "t = TableColumn")
  case True
  with assms(3) have "lift_TableColumn v b (Expr c (Node TableColumn as) nm)
      = Inr (Expr c (Node TableColumn as) nm)" by simp
  then show ?thesis unfolding True by (simp add: get_result.simps)
next
  case False
  with assms(1,2) show ?thesis by (simp add: get_result.simps)
qed

lemma get_result_lifted:
  assumes "t = TableColumn"
    and "lift_TableColumn v b (Expr c (Node t as) nm) = Inr r"
    and "r \<noteq> Expr c (Node t as) nm"
  shows "get_result v b (Expr c (Node t as) nm) = Inr r"
  using assms by (simp add: get_result.simps)

lemma get_result_error:
  assumes "t = TableColumn"
    and "lift_TableColumn v b (Expr c (Node t as) nm) = Inl err"
  shows "get_result v b (Expr c (Node t as) nm) = Inl err"
  using assms by (simp add: get_result.simps)

lemma lift_TableColumn_shape:
  assumes "lift_TableColumn v b (Expr c (Node t as) nm) = Inr r"
  shows "\<exists>tbl name. as = [E tbl, S name]"
  using assms
  by (auto simp: lift_TableColumn.simps split: list.splits arg.splits expr.splits node.splits)

lemma lift_TableColumn_not_selection:
  assumes "node_tag (op tbl) \<noteq> Selection"
  shows "lift_TableColumn v b (Expr c (Node t [E tbl, S name]) nm)
           = Inr (Expr c (Node t [E tbl, S name]) nm)"
proof (cases tbl)
  case (Expr rc n rnm)
  with assms show ?thesis
    by (cases n) (simp add: lift_TableColumn.simps)
qed

lemma lift_selection:
  assumes "node_tag (op tbl) = Selection"
  shows "lift v b tbl = Inr tbl"
proof (cases tbl)
  case (Expr rc n rnm)
  with assms show ?thesis
    by (cases n) (simp add: is_value_def)
qed

lemma get_result_physical_column:
  assumes "node_tag (op val) = PhysicalTable"
  shows "get_result v b (Expr c (Node TableColumn [E val, S name]) nm)
           = Inr (Expr c (Node TableColumn [E val, S name]) nm)"
proof -
  from assms have "node_tag (op val) \<noteq> Selection" by simp
  from lift_TableColumn_not_selection [OF this] show ?thesis
    by (subst get_result_generic) (simp_all add: lift_physical [OF assms])
qed


declare lift.simps [simp del]

lemma lift_idem_all:
  "\<forall>e'. get_result v b e = Inr e' \<longrightarrow> get_result v b e' = Inr e'"
  "\<forall>e'. lift v b e = Inr e' \<longrightarrow> lift v b e' = Inr e'"
  "lift_TableColumn v b e = lift_TableColumn v b e"
  "lift_root v name sels acc = lift_root v name sels acc"
  "\<forall>as'. lift_args v b as = Inr as' \<longrightarrow> lift_args v b as' = Inr as'"
  "\<forall>es'. lift_list v b es = Inr es' \<longrightarrow> lift_list v b es' = Inr es'"
proof (induction v b e and v b e and v b e and v name sels acc and v b as and v b es
    rule: get_result_lift_lift_TableColumn_lift_root_lift_args_lift_list.induct)
  case (1 v b c t as nm)
  let ?e = "Expr c (Node t as) nm"
  show ?case
  proof (intro allI impI)
    fix e'
    assume g: "get_result v b ?e = Inr e'"
    show "get_result v b e' = Inr e'"
    proof (cases "t = Literal \<or> t = Selection")
      case True
      with g have "e' = ?e" by (auto simp: get_result.simps)
      with g show ?thesis by simp
    next
      case plain: False
      show ?thesis
      proof (cases "t = TableColumn \<and> lift_TableColumn v b ?e \<noteq> Inr ?e")
        case True
        then obtain r where r: "lift_TableColumn v b ?e = Inr r" "r \<noteq> ?e"
          using g get_result_error [of t v b c as nm]
          by (cases "lift_TableColumn v b ?e") auto
        with True g have "e' = r" by (simp add: get_result_lifted)
        with lift_TableColumn_result [OF r] show ?thesis
          by (auto simp: get_result_physical_column)
      next
        case False
        then have same: "t = TableColumn \<Longrightarrow> lift_TableColumn v b ?e = Inr ?e"
          by blast
        note gen = get_result_generic [of t v b c as nm, OF _ _ same]
        from plain g gen obtain as' where la: "lift_args v b as = Inr as'"
          by (cases "lift_args v b as") auto
        have ih: "lift_args v b as' = Inr as'"
          using "1.IH"(2) [of ?e] plain same la by auto
        show ?thesis
        proof (cases "as' = as")
          case True
          with plain g gen la have "e' = ?e" by simp
          with g show ?thesis by simp
        next
          case False
          with plain g gen la have e': "e' = Expr c (Node t as') (if c \<noteq> Table then nm else None)"
            by (auto simp: construct_def split: option.splits)
          have "lift_TableColumn v b (Expr c (Node t as') (if c \<noteq> Table then nm else None))
                  = Inr (Expr c (Node t as') (if c \<noteq> Table then nm else None))"
            if tc: "t = TableColumn"
          proof -
            from lift_TableColumn_shape [OF same [OF tc]]
            obtain tbl name where as: "as = [E tbl, S name]" by blast
            with la obtain tbl' where as': "as' = [E tbl', S name]"
              and l: "lift v b tbl = Inr tbl'"
              by (auto split: sum.splits)
            have "node_tag (op tbl) \<noteq> Selection"
              using lift_selection [of tbl v b] l as as' False by auto
            with lift_tag [OF l] have "node_tag (op tbl') \<noteq> Selection" by simp
            from lift_TableColumn_not_selection [OF this] as' show ?thesis by simp
          qed
          then show ?thesis
            unfolding e' using plain ih
            by (subst get_result_generic) simp_all
        qed
      qed
    qed
  qed
next
  case (2 v b c t as nm)
  let ?e = "Expr c (Node t as) nm"
  show ?case
  proof (intro allI impI)
    fix e'
    assume l: "lift v b ?e = Inr e'"
    from lift_tag [OF l] obtain c' as' nm' where e': "e' = Expr c' (Node t as') nm'"
      by (cases e'; cases "op e'") auto
    show "lift v b e' = Inr e'"
    proof (cases "is_value t \<or> (t \<noteq> Selection \<and> \<not> is_table_node t)")
      case True
      with l have g: "get_result v b ?e = Inr e'"
        by (auto simp: lift.simps split: if_splits)
      with 2 True have "get_result v b e' = Inr e'" by blast
      with True show ?thesis unfolding e' by (auto simp: lift.simps)
    next
      case False
      with l have "e' = ?e" by (auto simp: lift.simps split: if_splits)
      with l show ?thesis by simp
    qed
  qed
next
  case (7 v b a as)
  show ?case
  proof (intro allI impI)
    fix as'
    assume l: "lift_args v b (a # as) = Inr as'"
    then obtain a' rest where as': "as' = a' # rest"
      and rest: "lift_args v b as = Inr rest"
      and a': "(case a of
                  E e \<Rightarrow> (case lift v b e of Inl err \<Rightarrow> Inl err | Inr e' \<Rightarrow> Inr (E e'))
                | L es \<Rightarrow> (case lift_list v b es of Inl err \<Rightarrow> Inl err | Inr es' \<Rightarrow> Inr (L es'))
                | _ \<Rightarrow> Inr a) = Inr a'"
      by (auto split: sum.splits)
    from "7.IH"(3) [OF a'] rest have r: "lift_args v b rest = Inr rest" by blast
    show "lift_args v b as' = Inr as'"
    proof (cases a)
      case (E x)
      with a' obtain x' where "lift v b x = Inr x'" "a' = E x'"
        by (auto split: sum.splits)
      with "7.IH"(1) [OF E] r as' show ?thesis by auto
    next
      case (L xs)
      with a' obtain xs' where "lift_list v b xs = Inr xs'" "a' = L xs'"
        by (auto split: sum.splits)
      with "7.IH"(2) [OF L] r as' show ?thesis by auto
    qed (use a' r as' in auto)
  qed
qed (auto split: sum.splits)

text \<open>
  Claim C3. \<^verbatim>\<open>substitute_parents\<close> is idempotent: simplifying the result of a
  simplification returns that result (and where the first simplification raises,
  there is no result to simplify again).
\<close>

theorem substitute_parents_idempotent:
  "(case substitute_parents validate e past_projection of
      Inl err \<Rightarrow> Inl err
    | Inr e' \<Rightarrow> substitute_parents validate e' past_projection)
   = substitute_parents validate e past_projection"
  using lift_idem_all(1) [of validate "\<not> past_projection" e]
  by (auto simp: substitute_parents_def split: sum.splits)


lemma not_liftable_fixed_all:
  "(\<forall>x\<in>set (e # subexprs e). \<not> liftable v b x) \<longrightarrow> get_result v b e = Inr e"
  "(\<forall>x\<in>set (e # subexprs e). \<not> liftable v b x) \<longrightarrow> lift v b e = Inr e"
  "lift_TableColumn v b e = lift_TableColumn v b e"
  "lift_root v name sels acc = lift_root v name sels acc"
  "(\<forall>x\<in>set (subexprs_args as). \<not> liftable v b x) \<longrightarrow> lift_args v b as = Inr as"
  "(\<forall>x\<in>set (subexprs_list es). \<not> liftable v b x) \<longrightarrow> lift_list v b es = Inr es"
proof (induction v b e and v b e and v b e and v name sels acc and v b as and v b es
    rule: get_result_lift_lift_TableColumn_lift_root_lift_args_lift_list.induct)
  case (1 v b c t as nm)
  let ?e = "Expr c (Node t as) nm"
  show ?case
  proof
    assume h: "\<forall>x\<in>set (?e # subexprs ?e). \<not> liftable v b x"
    show "get_result v b ?e = Inr ?e"
    proof (cases "t = Literal \<or> t = Selection")
      case True
      then show ?thesis by (auto simp: get_result.simps)
    next
      case False
      from h have same: "t = TableColumn \<Longrightarrow> lift_TableColumn v b ?e = Inr ?e"
        by (simp add: liftable_def)
      from h have "\<forall>x\<in>set (subexprs_args as). \<not> liftable v b x" by simp
      with "1.IH"(2) [of ?e] False same have "lift_args v b as = Inr as" by auto
      with False same show ?thesis
        by (subst get_result_generic) simp_all
    qed
  qed
next
  case (2 v b c t as nm)
  then show ?case by (auto simp: lift.simps)
next
  case (7 v b a as)
  show ?case
  proof
    assume h: "\<forall>x\<in>set (subexprs_args (a # as)). \<not> liftable v b x"
    show "lift_args v b (a # as) = Inr (a # as)"
    proof (cases a)
      case (E x)
      with h "7.IH"(1) [OF E] have x: "lift v b x = Inr x" by simp
      from E h have "\<forall>x\<in>set (subexprs_args as). \<not> liftable v b x" by simp
      with "7.IH"(3) [of a] E x have "lift_args v b as = Inr as" by simp
      with E x show ?thesis by simp
    next
      case (L xs)
      with h "7.IH"(2) [OF L] have x: "lift_list v b xs = Inr xs" by simp
      from L h have "\<forall>x\<in>set (subexprs_args as). \<not> liftable v b x" by simp
      with "7.IH"(3) [of a] L x have "lift_args v b as = Inr as" by simp
      with L x show ?thesis by simp
    next
      case (S s)
      with h "7.IH"(3) [of a] show ?thesis by simp
    next
      case (Names ns)
      with h "7.IH"(3) [of a] show ?thesis by simp
    next
      case NoneArg
      with h "7.IH"(3) [of a] show ?thesis by simp
    qed
  qed
qed auto

text \<open>
  A rewrite that changes nothing returns an expression equal to its argument:
  \<^verbatim>\<open>substitute\<close> with the empty mapping returns the expression, and
  \<^verbatim>\<open>substitute_parents\<close> returns the expression when none of its subterms is a column
  reference that lifting rewrites. This is equality of values; which object is returned
  is the matter of the next statement.
\<close>

lemma rewrite_without_change:
  "substitute blocks validate Map.empty e = Inr e
   \<and> ((\<forall>x\<in>set (e # subexprs e). \<not> liftable validate (\<not> past_projection) x) \<longrightarrow>
        substitute_parents validate e past_projection = Inr e)"
  using not_liftable_fixed_all(1) [of e validate "\<not> past_projection"]
  by (simp add: substitute_empty_both(1) substitute_parents_def)

lemma rewrite_without_change_example:
  "substitute sample_blocks sample_rules Map.empty (binop ''gt'' (column t1 ''a'') (literal ''0''))
     = Inr (binop ''gt'' (column t1 ''a'') (literal ''0''))
   \<and> substitute_parents sample_rules (binop ''gt'' (column t1 ''a'') (literal ''0'')) True
       = Inr (binop ''gt'' (column t1 ''a'') (literal ''0''))"
proof -
  let ?e = "binop ''gt'' (column t1 ''a'') (literal ''0'')"
  have h: "\<forall>x\<in>set (?e # subexprs ?e). \<not> liftable sample_rules (\<not> True) x"
    by (simp add: binop_def column_def literal_def t1_def physical_def liftable_def
        lift_TableColumn.simps)
  from rewrite_without_change [of sample_blocks sample_rules ?e True] h
  show ?thesis by simp
qed

text \<open>
  Claim C4. \<^verbatim>\<open>_substitute\<close> returns its argument when every substituted argument
  \<^verbatim>\<open>is\<close> the argument it came from. The cache of \<^verbatim>\<open>self.substitute\<close> is keyed by the
  value of the expression, so for \<^verbatim>\<open>t.a + t.a\<close>, whose operands are two equal objects,
  the second operand is answered from the cache with the first one, the test
  \<^verbatim>\<open>new_arg is arg\<close> fails, and \<^verbatim>\<open>substitute(e, {})\<close> builds a new expression: the
  result equals \<open>e\<close> and is not the object \<open>e\<close>.
\<close>

theorem substitute_rebuilds_equal_operands:
  "forget sum_object = binop ''add'' (column t1 ''a'') (column t1 ''a'')
   \<and> substitute sample_blocks sample_rules Map.empty (forget sum_object)
       = Inr (forget sum_object)
   \<and> fst (substitute_obj sample_blocks sample_rules Map.empty sum_object
             \<lparr>cache = [], next_ident = 4\<rparr>)
       = Inr (Obj 4 Column (ValueOp ''add'') [OE (column_object 1), OE (column_object 1)] None)
   \<and> forget (Obj 4 Column (ValueOp ''add'') [OE (column_object 1), OE (column_object 1)] None)
       = forget sum_object
   \<and> ident (Obj 4 Column (ValueOp ''add'') [OE (column_object 1), OE (column_object 1)] None)
       \<noteq> ident sum_object"
  by code_simp

text \<open>
  Lifting that may not cross a projection (\<^verbatim>\<open>past_projection=False\<close>) rewrites no
  column reference, so the simplifier hands back its argument whenever it returns.
\<close>

lemma lift_blocked_all:
  "b \<longrightarrow> (\<forall>e'. get_result v b e = Inr e' \<longrightarrow> e' = e)"
  "b \<longrightarrow> (\<forall>e'. lift v b e = Inr e' \<longrightarrow> e' = e)"
  "lift_TableColumn v b e = lift_TableColumn v b e"
  "lift_root v name sels acc = lift_root v name sels acc"
  "b \<longrightarrow> (\<forall>as'. lift_args v b as = Inr as' \<longrightarrow> as' = as)"
  "b \<longrightarrow> (\<forall>es'. lift_list v b es = Inr es' \<longrightarrow> es' = es)"
proof (induction v b e and v b e and v b e and v name sels acc and v b as and v b es
    rule: get_result_lift_lift_TableColumn_lift_root_lift_args_lift_list.induct)
  case (1 v b c t as nm)
  let ?e = "Expr c (Node t as) nm"
  show ?case
  proof (intro allI impI)
    fix e'
    assume b: b and g: "get_result v b ?e = Inr e'"
    show "e' = ?e"
    proof (cases "t = Literal \<or> t = Selection")
      case True
      with g show ?thesis by (auto simp: get_result.simps)
    next
      case plain: False
      have same: "lift_TableColumn v b ?e = Inr ?e" if tc: "t = TableColumn"
      proof (cases "lift_TableColumn v b ?e")
        case (Inl err)
        with g get_result_error [OF tc Inl] show ?thesis by simp
      next
        case (Inr r)
        with lift_TableColumn_result [OF Inr] b show ?thesis by auto
      qed
      note gen = get_result_generic [of t v b c as nm, OF _ _ same]
      from plain g gen obtain as' where la: "lift_args v b as = Inr as'"
        by (cases "lift_args v b as") auto
      have "as' = as"
        using "1.IH"(2) [of ?e] plain same la b by auto
      with plain g gen la show ?thesis by simp
    qed
  qed
next
  case (2 v b c t as nm)
  let ?e = "Expr c (Node t as) nm"
  show ?case
  proof (intro allI impI)
    fix e'
    assume b: b and l: "lift v b ?e = Inr e'"
    show "e' = ?e"
    proof (cases "is_value t \<or> (t \<noteq> Selection \<and> \<not> is_table_node t)")
      case True
      with l have g: "get_result v b ?e = Inr e'"
        by (auto simp: lift.simps split: if_splits)
      with 2 True b show ?thesis by blast
    next
      case False
      with l show ?thesis by (auto simp: lift.simps split: if_splits)
    qed
  qed
next
  case (7 v b a as)
  show ?case
  proof (intro allI impI)
    fix as'
    assume b: b and l: "lift_args v b (a # as) = Inr as'"
    from l obtain a' rest where as': "as' = a' # rest"
      and rest: "lift_args v b as = Inr rest"
      and a': "(case a of
                  E e \<Rightarrow> (case lift v b e of Inl err \<Rightarrow> Inl err | Inr e' \<Rightarrow> Inr (E e'))
                | L es \<Rightarrow> (case lift_list v b es of Inl err \<Rightarrow> Inl err | Inr es' \<Rightarrow> Inr (L es'))
                | _ \<Rightarrow> Inr a) = Inr a'"
      by (auto split: sum.splits)
    from "7.IH"(3) [OF a'] rest b have r: "rest = as" by blast
    have "a' = a"
    proof (cases a)
      case (E x)
      with a' obtain x' where "lift v b x = Inr x'" "a' = E x'"
        by (auto split: sum.splits)
      with "7.IH"(1) [OF E] b E show ?thesis by auto
    next
      case (L xs)
      with a' obtain xs' where "lift_list v b xs = Inr xs'" "a' = L xs'"
        by (auto split: sum.splits)
      with "7.IH"(2) [OF L] b L show ?thesis by auto
    qed (use a' in auto)
    with r as' show "as' = a # as" by simp
  qed
qed (auto split: sum.splits)

lemma substitute_parents_blocked:
  "substitute_parents v e False = Inr e' \<Longrightarrow> e' = e"
  using lift_blocked_all(1) [of True v e] by (simp add: substitute_parents_def)

section \<open>Properties of the traversal and of root tables\<close>

lemma reach_closed:
  assumes "R' \<subseteq> reach fn ty R"
  shows "reach fn ty R' \<subseteq> reach fn ty R"
proof
  fix x
  assume "x \<in> reach fn ty R'"
  then show "x \<in> reach fn ty R"
  proof (induction rule: reach.induct)
    case (root e)
    with assms show ?case by blast
  next
    case (step e c)
    then show ?case by (blast intro: reach.step)
  qed
qed

lemma reach_mono:
  "R' \<subseteq> R \<Longrightarrow> reach fn ty R' \<subseteq> reach fn ty R"
  by (rule reach_closed) (blast intro: reach.root)

lemma reach_Un:
  "reach fn ty (A \<union> B) = reach fn ty A \<union> reach fn ty B"
proof
  show "reach fn ty (A \<union> B) \<subseteq> reach fn ty A \<union> reach fn ty B"
  proof
    fix x
    assume "x \<in> reach fn ty (A \<union> B)"
    then show "x \<in> reach fn ty A \<union> reach fn ty B"
    proof (induction rule: reach.induct)
      case (root e)
      then show ?case by (blast intro: reach.root)
    next
      case (step e c)
      then show ?case by (blast intro: reach.step)
    qed
  qed
next
  show "reach fn ty A \<union> reach fn ty B \<subseteq> reach fn ty (A \<union> B)"
    using reach_mono [of A "A \<union> B" fn ty] reach_mono [of B "A \<union> B" fn ty] by blast
qed

lemma visited_by_skip:
  assumes "visited_by fn ty todo seen out F" and "op e \<in> set seen"
  shows "visited_by fn ty (e # todo) seen out F"
proof -
  have mono: "reach fn ty (set todo) \<subseteq> reach fn ty (set (e # todo))"
    by (rule reach_mono) auto
  from assms(1) have F:
    "set seen \<subseteq> F" "op ` set todo \<subseteq> F"
    "\<forall>x. op x \<in> F - set seen \<longrightarrow> fst (fn x) \<longrightarrow>
        (\<forall>c\<in>set (flat_args (op x)). ty c \<longrightarrow> op c \<in> F)"
    "F \<subseteq> set seen \<union> op ` reach fn ty (set todo)"
    "set out = {r. \<exists>x. op x \<in> F - set seen \<and> snd (fn x) = Some r}"
    unfolding visited_by_def by blast+
  have a: "op ` set (e # todo) \<subseteq> F" using assms(2) F(1,2) by auto
  have b: "F \<subseteq> set seen \<union> op ` reach fn ty (set (e # todo))"
    using F(4) mono by blast
  show ?thesis
    unfolding visited_by_def using F(1) a F(3) b F(5) by blast
qed

lemma visited_by_visit:
  assumes resp: "\<And>e e'. op e = op e' \<Longrightarrow> fn e = fn e'"
    and fe: "fn e = (control, result)"
    and new: "op e \<notin> set seen"
    and inv: "visited_by fn ty
        (if control then filter ty (flat_args (op e)) @ todo else todo) (op e # seen) out F"
  shows "visited_by fn ty (e # todo) seen
           ((case result of None \<Rightarrow> [] | Some r \<Rightarrow> [r]) @ out) F"
proof -
  let ?todo = "if control then filter ty (flat_args (op e)) @ todo else todo"
  from inv have F:
    "set (op e # seen) \<subseteq> F" "op ` set ?todo \<subseteq> F"
    "\<forall>x. op x \<in> F - set (op e # seen) \<longrightarrow> fst (fn x) \<longrightarrow>
        (\<forall>c\<in>set (flat_args (op x)). ty c \<longrightarrow> op c \<in> F)"
    "F \<subseteq> set (op e # seen) \<union> op ` reach fn ty (set ?todo)"
    "set out = {r. \<exists>x. op x \<in> F - set (op e # seen) \<and> snd (fn x) = Some r}"
    unfolding visited_by_def by blast+
  have e_reach: "e \<in> reach fn ty (set (e # todo))"
    by (rule reach.root) simp
  have "set ?todo \<subseteq> reach fn ty (set (e # todo))"
  proof
    fix c
    assume c: "c \<in> set ?todo"
    show "c \<in> reach fn ty (set (e # todo))"
    proof (cases "c \<in> set todo")
      case True
      then show ?thesis by (simp add: reach.root)
    next
      case False
      with c have cc: "control" "c \<in> set (flat_args (op e))" "ty c"
        by (auto split: if_splits)
      from cc(1) fe have "fst (fn e)" by simp
      from reach.step [OF e_reach this cc(2,3)] show ?thesis .
    qed
  qed
  from reach_closed [OF this]
  have sub: "reach fn ty (set ?todo) \<subseteq> reach fn ty (set (e # todo))" .
  have p1: "set seen \<subseteq> F" using F(1) by simp
  have ein: "op e \<in> F" using F(1) by simp
  have todo_in: "op ` set todo \<subseteq> F"
  proof (cases control)
    case True
    with F(2) show ?thesis by auto
  next
    case False
    with F(2) show ?thesis by simp
  qed
  have p2: "op ` set (e # todo) \<subseteq> F" using ein todo_in by simp
  have p3: "\<forall>x. op x \<in> F - set seen \<longrightarrow> fst (fn x) \<longrightarrow>
      (\<forall>c\<in>set (flat_args (op x)). ty c \<longrightarrow> op c \<in> F)"
  proof (intro allI impI ballI)
    fix x c
    assume x: "op x \<in> F - set seen" "fst (fn x)"
      and c: "c \<in> set (flat_args (op x))" "ty c"
    show "op c \<in> F"
    proof (cases "op x = op e")
      case True
      with resp [of x e] fe x(2) have control: "control" by simp
      from c True have "c \<in> set (filter ty (flat_args (op e)))" by simp
      with control have "c \<in> set ?todo" by simp
      with F(2) show ?thesis by blast
    next
      case False
      with x(1) have "op x \<in> F - set (op e # seen)" by simp
      with F(3) x(2) c show ?thesis by blast
    qed
  qed
  have p4: "F \<subseteq> set seen \<union> op ` reach fn ty (set (e # todo))"
  proof
    fix n
    assume "n \<in> F"
    with F(4) consider "n = op e" | "n \<in> set seen" | "n \<in> op ` reach fn ty (set ?todo)"
      by auto
    then show "n \<in> set seen \<union> op ` reach fn ty (set (e # todo))"
    proof cases
      case 1
      with e_reach show ?thesis by blast
    next
      case 2
      then show ?thesis by simp
    next
      case 3
      with sub show ?thesis by blast
    qed
  qed
  have p5: "set ((case result of None \<Rightarrow> [] | Some r \<Rightarrow> [r]) @ out)
          = {r. \<exists>x. op x \<in> F - set seen \<and> snd (fn x) = Some r}"
  proof (intro set_eqI iffI)
    fix r
    assume "r \<in> set ((case result of None \<Rightarrow> [] | Some r \<Rightarrow> [r]) @ out)"
    then consider "result = Some r" | "r \<in> set out"
      by (cases result) auto
    then show "r \<in> {r. \<exists>x. op x \<in> F - set seen \<and> snd (fn x) = Some r}"
    proof cases
      case 1
      with fe have "snd (fn e) = Some r" by simp
      with ein new show ?thesis by blast
    next
      case 2
      with F(5) obtain x where "op x \<in> F - set (op e # seen)" "snd (fn x) = Some r"
        by blast
      then show ?thesis by auto
    qed
  next
    fix r
    assume "r \<in> {r. \<exists>x. op x \<in> F - set seen \<and> snd (fn x) = Some r}"
    then obtain x where x: "op x \<in> F - set seen" "snd (fn x) = Some r" by blast
    show "r \<in> set ((case result of None \<Rightarrow> [] | Some r \<Rightarrow> [r]) @ out)"
    proof (cases "op x = op e")
      case True
      with resp [of x e] fe x(2) have "result = Some r" by simp
      then show ?thesis by simp
    next
      case False
      with x have "op x \<in> F - set (op e # seen)" by simp
      with x(2) F(5) have "r \<in> set out" by blast
      then show ?thesis by simp
    qed
  qed
  show ?thesis
    unfolding visited_by_def using p1 p2 p3 p4 p5 by blast
qed

lemma traverse_loop_char:
  "dedup \<Longrightarrow> (\<And>e e'. op e = op e' \<Longrightarrow> fn e = fn e') \<Longrightarrow>
     \<exists>F. visited_by fn ty todo seen (traverse_loop fn ty dedup todo seen) F"
proof (induction fn ty dedup todo seen rule: traverse_loop.induct)
  case (1 fn ty dedup seen)
  have "visited_by fn ty [] seen [] (set seen)"
    unfolding visited_by_def by simp
  then show ?case by auto
next
  case (2 fn ty dedup e todo seen)
  note dedup = "2.prems"(1)
  note resp = "2.prems"(2)
  show ?case
  proof (cases "op e \<in> set seen")
    case True
    with dedup have c: "dedup \<and> op e \<in> set seen" by simp
    from "2.IH"(1) [OF c dedup resp] obtain F
      where "visited_by fn ty todo seen (traverse_loop fn ty dedup todo seen) F"
      by blast
    from visited_by_skip [OF this True]
    have "visited_by fn ty (e # todo) seen (traverse_loop fn ty dedup todo seen) F" .
    moreover have "traverse_loop fn ty dedup (e # todo) seen
        = traverse_loop fn ty dedup todo seen"
      using c by simp
    ultimately show ?thesis by auto
  next
    case False
    obtain control result where fe: "fn e = (control, result)" by (cases "fn e")
    let ?todo = "if control then filter ty (flat_args (op e)) @ todo else todo"
    have c: "\<not> (dedup \<and> op e \<in> set seen)" using False by simp
    from "2.IH"(2) [OF c fe [symmetric] dedup resp] dedup
    obtain F where "visited_by fn ty ?todo (op e # seen)
        (traverse_loop fn ty dedup ?todo (op e # seen)) F"
      by auto
    from visited_by_visit [OF resp fe False this]
    have "visited_by fn ty (e # todo) seen
        ((case result of None \<Rightarrow> [] | Some r \<Rightarrow> [r])
          @ traverse_loop fn ty dedup ?todo (op e # seen)) F" .
    moreover have "traverse_loop fn ty dedup (e # todo) seen
        = (case result of None \<Rightarrow> [] | Some r \<Rightarrow> [r])
          @ traverse_loop fn ty dedup ?todo (op e # seen)"
      using False fe dedup by simp
    ultimately show ?thesis by auto
  qed
qed

lemma traverse_reach:
  assumes resp: "\<And>e e'. op e = op e' \<Longrightarrow> fn e = fn e'"
  shows "set (traverse fn roots ty True)
           = {r. \<exists>e\<in>reach fn ty (set (filter ty roots)). snd (fn e) = Some r}"
proof -
  let ?R = "reach fn ty (set (filter ty roots))"
  from traverse_loop_char [of True fn ty "filter ty roots" "[]", OF TrueI resp]
  obtain F where "visited_by fn ty (filter ty roots) []
      (traverse_loop fn ty True (filter ty roots) []) F"
    by blast
  then have F: "op ` set (filter ty roots) \<subseteq> F"
    "\<forall>e. op e \<in> F \<longrightarrow> fst (fn e) \<longrightarrow> (\<forall>c\<in>set (flat_args (op e)). ty c \<longrightarrow> op c \<in> F)"
    "F \<subseteq> op ` ?R"
    "set (traverse_loop fn ty True (filter ty roots) [])
       = {r. \<exists>e. op e \<in> F \<and> snd (fn e) = Some r}"
    unfolding visited_by_def by simp_all
  have in_F: "op e \<in> F" if "e \<in> ?R" for e
    using that
  proof (induction rule: reach.induct)
    case (root e)
    with F(1) show ?case by blast
  next
    case (step e c)
    with F(2) show ?case by blast
  qed
  have "{r. \<exists>e. op e \<in> F \<and> snd (fn e) = Some r} = {r. \<exists>e\<in>?R. snd (fn e) = Some r}"
  proof (intro set_eqI iffI)
    fix r
    assume "r \<in> {r. \<exists>e. op e \<in> F \<and> snd (fn e) = Some r}"
    then obtain e where e: "op e \<in> F" "snd (fn e) = Some r" by blast
    with F(3) obtain e' where e': "e' \<in> ?R" "op e' = op e" by force
    from resp [OF e'(2)] e(2) have "snd (fn e') = Some r" by simp
    with e'(1) show "r \<in> {r. \<exists>e\<in>?R. snd (fn e) = Some r}" by blast
  next
    fix r
    assume "r \<in> {r. \<exists>e\<in>?R. snd (fn e) = Some r}"
    then show "r \<in> {r. \<exists>e. op e \<in> F \<and> snd (fn e) = Some r}"
      using in_F by blast
  qed
  with F(4) show ?thesis by (simp add: traverse_def)
qed

text \<open>
  A node that is larger than everything still to visit is never met, so it makes no
  difference whether it is among the nodes already seen.
\<close>

lemma size_expr_op:
  "size e = Suc (size (op e))"
  by (cases e) simp

lemma flat_args_child_size:
  assumes "c \<in> set (flat_args (op e))"
  shows "size c < size e"
proof -
  have "size c \<le> sum_list (map size (filter (\<lambda>x. True) (flat_args (op e))))"
    using assms by (simp add: member_le_sum_list)
  also have "\<dots> < size e" by (rule flat_args_size)
  finally show ?thesis .
qed

lemma traverse_loop_seen_irrelevant:
  assumes "dedup"
    and "\<forall>x\<in>set todo. size x < k"
    and "\<forall>y. op y = n \<longrightarrow> k \<le> size y"
    and "set seen' = insert n (set seen)"
  shows "traverse_loop fn ty dedup todo seen' = traverse_loop fn ty dedup todo seen"
  using assms
proof (induction fn ty dedup todo seen arbitrary: seen' rule: traverse_loop.induct)
  case (1 fn ty dedup seen)
  then show ?case by simp
next
  case (2 fn ty dedup e todo seen)
  note dedup = "2.prems"(1)
  from "2.prems"(2) have se: "size e < k" and rest: "\<forall>x\<in>set todo. size x < k" by simp_all
  from se "2.prems"(3) have ne: "op e \<noteq> n" by auto
  show ?case
  proof (cases "op e \<in> set seen")
    case True
    with "2.prems"(4) have in': "op e \<in> set seen'" by simp
    from True dedup have c: "dedup \<and> op e \<in> set seen" by simp
    from "2.IH"(1) [OF c dedup rest "2.prems"(3) "2.prems"(4)] True in' dedup
    show ?thesis by simp
  next
    case False
    with "2.prems"(4) ne have nin': "op e \<notin> set seen'" by simp
    obtain control result where fe: "fn e = (control, result)" by (cases "fn e")
    let ?todo = "if control then filter ty (flat_args (op e)) @ todo else todo"
    have c: "\<not> (dedup \<and> op e \<in> set seen)" using False by simp
    have sz: "\<forall>x\<in>set ?todo. size x < k"
      using rest se flat_args_child_size [of _ e] by (auto intro: less_trans)
    have st: "set (op e # seen') = insert n (set (if dedup then op e # seen else seen))"
      using "2.prems"(4) dedup by auto
    from "2.IH"(2) [OF c fe [symmetric] dedup sz "2.prems"(3) st]
    have "traverse_loop fn ty dedup ?todo (op e # seen')
        = traverse_loop fn ty dedup ?todo (op e # seen)"
      using dedup by simp
    with False nin' fe dedup show ?thesis by simp
  qed
qed

lemma find_root_table_respects_op:
  "op e = op e' \<Longrightarrow> find_root_table blocks e = find_root_table blocks e'"
  by (simp add: find_root_table_def)

lemma root_tables_of_reach:
  "root_tables_of blocks xs
     = {r. \<exists>e\<in>reach (find_root_table blocks) any_type (set xs).
             snd (find_root_table blocks e) = Some r}"
proof -
  have "filter any_type xs = xs" by (simp add: any_type_def)
  with traverse_reach [of "find_root_table blocks" xs any_type,
      OF find_root_table_respects_op]
  show ?thesis by (simp add: root_tables_of_def)
qed

lemma root_tables_of_append:
  "root_tables_of blocks (xs @ ys) = root_tables_of blocks xs \<union> root_tables_of blocks ys"
  unfolding root_tables_of_reach by (auto simp: reach_Un)

lemma reach_single:
  assumes "fst (fn e)"
  shows "reach fn any_type {e} = insert e (reach fn any_type (set (flat_args (op e))))"
proof (intro set_eqI iffI)
  fix x
  assume "x \<in> reach fn any_type {e}"
  then show "x \<in> insert e (reach fn any_type (set (flat_args (op e))))"
  proof (induction rule: reach.induct)
    case (root y)
    then show ?case by simp
  next
    case (step y c)
    show ?case
    proof (cases "y = e")
      case True
      with step.hyps(3) have "c \<in> reach fn any_type (set (flat_args (op e)))"
        by (simp add: reach.root)
      then show ?thesis by simp
    next
      case False
      with step.IH have "y \<in> reach fn any_type (set (flat_args (op e)))" by simp
      from reach.step [OF this step.hyps(2,3,4)] show ?thesis by simp
    qed
  qed
next
  fix x
  assume x: "x \<in> insert e (reach fn any_type (set (flat_args (op e))))"
  have e: "e \<in> reach fn any_type {e}" by (simp add: reach.root)
  have "set (flat_args (op e)) \<subseteq> reach fn any_type {e}"
  proof
    fix c
    assume "c \<in> set (flat_args (op e))"
    from reach.step [OF e assms this] show "c \<in> reach fn any_type {e}"
      by (simp add: any_type_def)
  qed
  from reach_closed [OF this] x e show "x \<in> reach fn any_type {e}" by auto
qed

lemma root_tables_of_selection:
  assumes "node_tag (op s) = Selection"
  shows "root_tables_of blocks [s]
           = insert (Node Selection (take 2 (args (op s)) @ [L [], L []]))
               (root_tables_of blocks (flat_args (op s)))"
proof -
  have f: "find_root_table blocks s
             = (True, Some (Node Selection (take 2 (args (op s)) @ [L [], L []])))"
    using assms by (simp add: find_root_table_def)
  then have "fst (find_root_table blocks s)" by simp
  from reach_single [of "find_root_table blocks" s, OF this]
  have r: "reach (find_root_table blocks) any_type (set [s])
             = insert s (reach (find_root_table blocks) any_type (set (flat_args (op s))))"
    by simp
  show ?thesis
    unfolding root_tables_of_reach r using f by auto
qed

lemma flat_args_selection:
  "flat_args (Node Selection [E t, L sels, L preds, L keys]) = (t # sels) @ (preds @ keys)"
  by (simp add: flat_args_def)

text \<open>
  Two selections over the same table and selection list have the same root tables, and
  \<^verbatim>\<open>shares_all_roots\<close> holds between them, when their predicates and sort keys add no
  root table to those of the table and the selection list.
\<close>

lemma selection_roots_same_inside:
  assumes "root_tables_of blocks (preds1 @ keys1) \<subseteq> root_tables_of blocks (t # sels)"
    and "root_tables_of blocks (preds2 @ keys2) \<subseteq> root_tables_of blocks (t # sels)"
  shows "snd (find_root_table blocks (Expr c1 (Node Selection [E t, L sels, L preds1, L keys1]) nm1))
           = Some (Node Selection [E t, L sels, L [], L []])
       \<and> root_tables_of blocks [Expr c1 (Node Selection [E t, L sels, L preds1, L keys1]) nm1]
           = root_tables_of blocks [Expr c2 (Node Selection [E t, L sels, L preds2, L keys2]) nm2]
       \<and> shares_all_roots blocks [Expr c1 (Node Selection [E t, L sels, L preds1, L keys1]) nm1]
           [Expr c2 (Node Selection [E t, L sels, L preds2, L keys2]) nm2]"
proof -
  let ?s1 = "Expr c1 (Node Selection [E t, L sels, L preds1, L keys1]) nm1"
  let ?s2 = "Expr c2 (Node Selection [E t, L sels, L preds2, L keys2]) nm2"
  let ?n = "Node Selection [E t, L sels, L [], L []]"
  have r1: "root_tables_of blocks [?s1] = insert ?n (root_tables_of blocks (t # sels))"
    using assms(1)
    by (subst root_tables_of_selection)
      (auto simp: flat_args_selection root_tables_of_append simp del: append.simps)
  have r2: "root_tables_of blocks [?s2] = insert ?n (root_tables_of blocks (t # sels))"
    using assms(2)
    by (subst root_tables_of_selection)
      (auto simp: flat_args_selection root_tables_of_append simp del: append.simps)
  have "snd (find_root_table blocks ?s1) = Some ?n"
    by (simp add: find_root_table_def)
  moreover have "root_tables_of blocks [?s1] = root_tables_of blocks [?s2]"
    using r1 r2 by simp
  ultimately show ?thesis
    by (simp add: shares_all_roots_def root_tables_of_def [symmetric])
qed

text \<open>
  Claim C5. The comment in \<^verbatim>\<open>_find_root_table\<close> says that predicates and sort keys
  are removed ``so that child tables are considered equivalent even if their predicates
  and sort_keys are not''. The visitor yields the copy without them, but it answers
  \<^verbatim>\<open>lin.proceed\<close>, and the walk goes on into the predicates of the original node. For
  \<^verbatim>\<open>t.filter(t.a > 0)\<close> and \<^verbatim>\<open>t.filter(t.a > u.a)\<close>, two selections over \<^verbatim>\<open>t\<close> that
  differ in their predicates only, the root tables differ (the second has \<^verbatim>\<open>u\<close>) and
  \<^verbatim>\<open>shares_all_roots\<close> is false from the second to the first.
\<close>

theorem selection_roots_predicate_leak:
  "sample_rules Selection
      (args (op (selection t1 [] [binop ''gt'' (column t1 ''a'') (literal ''0'')] []))) = None
   \<and> sample_rules Selection
      (args (op (selection t1 [] [binop ''gt'' (column t1 ''a'') (column t2 ''a'')] [])))
       = None
   \<and> snd (find_root_table sample_blocks
            (selection t1 [] [binop ''gt'' (column t1 ''a'') (column t2 ''a'')] []))
       = Some (Node Selection [E t1, L [], L [], L []])
   \<and> root_tables_of sample_blocks
      [selection t1 [] [binop ''gt'' (column t1 ''a'') (literal ''0'')] []]
     \<noteq> root_tables_of sample_blocks
      [selection t1 [] [binop ''gt'' (column t1 ''a'') (column t2 ''a'')] []]
   \<and> \<not> shares_all_roots sample_blocks
      [selection t1 [] [binop ''gt'' (column t1 ''a'') (column t2 ''a'')] []]
      [selection t1 [] [binop ''gt'' (column t1 ''a'') (literal ''0'')] []]"
proof -
  have w: "sample_rules Selection
      (args (op (selection t1 [] [binop ''gt'' (column t1 ''a'') (literal ''0'')] []))) = None"
    "sample_rules Selection
      (args (op (selection t1 [] [binop ''gt'' (column t1 ''a'') (column t2 ''a'')] [])))
       = None"
    "snd (find_root_table sample_blocks
            (selection t1 [] [binop ''gt'' (column t1 ''a'') (column t2 ''a'')] []))
       = Some (Node Selection [E t1, L [], L [], L []])"
    by code_simp+
  have a: "traverse (find_root_table sample_blocks)
      [selection t1 [] [binop ''gt'' (column t1 ''a'') (literal ''0'')] []] any_type True
    = [Node Selection [E t1, L [], L [], L []], op t1]"
    by (simp add: traverse_def any_type_def selection_def binop_def column_def literal_def
        t1_def physical_def find_root_table_def sample_blocks_def flat_args_def)
  have b: "traverse (find_root_table sample_blocks)
      [selection t1 [] [binop ''gt'' (column t1 ''a'') (column t2 ''a'')] []] any_type True
    = [Node Selection [E t1, L [], L [], L []], op t1, op t2]"
    by (simp add: traverse_def any_type_def selection_def binop_def column_def literal_def
        t1_def t2_def physical_def find_root_table_def sample_blocks_def flat_args_def)
  have c: "op t2 \<noteq> op t1" "op t2 \<noteq> Node Selection [E t1, L [], L [], L []]"
    by (simp_all add: t1_def t2_def physical_def)
  have "root_tables_of sample_blocks
      [selection t1 [] [binop ''gt'' (column t1 ''a'') (literal ''0'')] []]
     \<noteq> root_tables_of sample_blocks
      [selection t1 [] [binop ''gt'' (column t1 ''a'') (column t2 ''a'')] []]
   \<and> \<not> shares_all_roots sample_blocks
      [selection t1 [] [binop ''gt'' (column t1 ''a'') (column t2 ''a'')] []]
      [selection t1 [] [binop ''gt'' (column t1 ''a'') (literal ''0'')] []]"
    unfolding shares_all_roots_def root_tables_of_def a b using c by auto
  with w show ?thesis by (intro conjI) simp_all
qed

section \<open>Properties of the filter pushdown\<close>









lemma is_reduction_predicate_respects_op:
  "op e = op e' \<Longrightarrow> is_reduction_predicate e = is_reduction_predicate e'"
  by (simp add: is_reduction_predicate_def)

lemma is_reduction_reach:
  "is_reduction e \<longleftrightarrow>
     (\<exists>x\<in>reach is_reduction_predicate any_type {e}. node_tag (op x) = Reduction)"
proof -
  have f: "filter any_type [e] = [e]" by (simp add: any_type_def)
  have "is_reduction e \<longleftrightarrow> True \<in> set (traverse is_reduction_predicate [e] any_type True)"
    by (auto simp: is_reduction_def list_ex_iff)
  also have "\<dots> \<longleftrightarrow> (\<exists>x\<in>reach is_reduction_predicate any_type {e}.
      snd (is_reduction_predicate x) = Some True)"
    using traverse_reach [of is_reduction_predicate "[e]" any_type,
        OF is_reduction_predicate_respects_op] f
    by simp
  also have "\<dots> \<longleftrightarrow> (\<exists>x\<in>reach is_reduction_predicate any_type {e}.
      node_tag (op x) = Reduction)"
    by (simp add: is_reduction_predicate_def)
  finally show ?thesis .
qed





text \<open>\<^verbatim>\<open>_can_pushdown\<close> answers \<^verbatim>\<open>True\<close> exactly when every predicate validates.\<close>

lemma can_pushdown_True:
  "can_pushdown v p preds = Inr True \<longleftrightarrow> (\<forall>x\<in>set preds. pushdown_validate v p x = Inr True)"
  by (induction preds) (auto split: sum.splits)

lemma can_pushdown_False:
  "can_pushdown v p preds = Inr False \<Longrightarrow> \<exists>x\<in>set preds. pushdown_validate v p x = Inr False"
  by (induction preds) (auto split: sum.splits if_splits)

lemma fuse_filter_blocks:
  "blocks (op e) \<Longrightarrow> fuse_filter blocks validate e tbl preds keys predicates = Inr None"
  by (simp add: fuse_filter_def)

text \<open>
  The first attempt of \<^verbatim>\<open>_filter_selection\<close>: when it yields a selection, that
  selection is the result, whatever \<^verbatim>\<open>_can_pushdown\<close> would say.
\<close>

lemma filter_selection_fused:
  assumes "args (op e) = [E tbl, L sels, L preds, L keys]"
    and "fuse_filter blocks validate e tbl preds keys predicates = Inr (Some fused)"
  shows "filter_selection blocks validate e predicates = Inr fused"
    and "\<not> blocks (op e)"
    and "\<exists>simplified_predicates.
           map_raising
             (\<lambda>predicate. if \<not> is_reduction predicate
                           then sub_for blocks validate predicate [(e, tbl)]
                           else Inr predicate) predicates = Inr simplified_predicates
         \<and> shares_all_roots blocks simplified_predicates [tbl]
         \<and> fused = Expr Table
                      (Node Selection [E tbl, L [], L (preds @ simplified_predicates), L keys])
                      None"
proof -
  from assms show "filter_selection blocks validate e predicates = Inr fused"
    by (simp add: filter_selection_def)
  from assms(2) show "\<not> blocks (op e)"
    by (auto simp: fuse_filter_def split: if_splits)
  from assms(2) show "\<exists>simplified_predicates.
           map_raising
             (\<lambda>predicate. if \<not> is_reduction predicate
                           then sub_for blocks validate predicate [(e, tbl)]
                           else Inr predicate) predicates = Inr simplified_predicates
         \<and> shares_all_roots blocks simplified_predicates [tbl]
         \<and> fused = Expr Table
                      (Node Selection [E tbl, L [], L (preds @ simplified_predicates), L keys])
                      None"
    by (auto simp: fuse_filter_def construct_def split: if_splits sum.splits option.splits)
qed

text \<open>
  Claim C8, as amended. When the first fusion attempt of \<^verbatim>\<open>_filter_selection\<close> is
  not made or does not succeed (as for every blocking selection) and the function
  returns, then either every predicate validates and the result is the selection with
  its table, selection list and sort keys unchanged and the simplified predicates
  appended to its predicates, or some predicate does not validate and the result is a
  new selection over the original expression with the given predicates and an empty
  selection list.
\<close>

theorem filter_selection_frame:
  assumes shape: "args (op e) = [E tbl, L sels, L preds, L keys]"
    and nofuse: "fuse_filter blocks validate e tbl preds keys predicates = Inr None"
    and ret: "filter_selection blocks validate e predicates = Inr r"
  shows "((\<forall>p\<in>set predicates. pushdown_validate validate (op e) p = Inr True)
          \<and> (\<exists>simplified_predicates.
                map_raising (\<lambda>x. substitute_parents validate x True) predicates
                  = Inr simplified_predicates
              \<and> r = Expr Table
                      (Node Selection [E tbl, L sels, L (preds @ simplified_predicates), L keys])
                      None))
       \<or> ((\<exists>p\<in>set predicates. pushdown_validate validate (op e) p = Inr False)
          \<and> r = Expr Table (Node Selection [E e, L [], L predicates, L []]) None)"
proof (cases "can_pushdown validate (op e) predicates")
  case (Inl err)
  with shape nofuse ret show ?thesis by (simp add: filter_selection_def)
next
  case (Inr ok)
  show ?thesis
  proof (cases ok)
    case True
    with Inr have all: "\<forall>p\<in>set predicates. pushdown_validate validate (op e) p = Inr True"
      by (simp add: can_pushdown_True)
    from shape nofuse ret Inr True obtain simplified_predicates where
      "map_raising (\<lambda>x. substitute_parents validate x True) predicates
         = Inr simplified_predicates"
      "r = Expr Table
             (Node Selection [E tbl, L sels, L (preds @ simplified_predicates), L keys]) None"
      by (auto simp: filter_selection_def construct_def split: sum.splits option.splits)
    with all show ?thesis by blast
  next
    case False
    with Inr have "\<exists>p\<in>set predicates. pushdown_validate validate (op e) p = Inr False"
      by (simp add: can_pushdown_False)
    moreover from shape nofuse ret Inr False
    have "r = Expr Table (Node Selection [E e, L [], L predicates, L []]) None"
      by (auto simp: filter_selection_def construct_def split: sum.splits option.splits)
    ultimately show ?thesis by blast
  qed
qed

theorem filter_selection_frame_witness:
  "args (op (selection t1 [column t1 ''a'', column t1 ''b''] [] []))
     = [E t1, L [column t1 ''a'', column t1 ''b''], L [], L []]
   \<and> filter_selection sample_blocks sample_rules
        (selection t1 [column t1 ''a'', column t1 ''b''] [] [])
        [binop ''gt'' (column t1 ''a'') (literal ''0'')]
      = Inr (selection t1 [column t1 ''a'', column t1 ''b'']
               [binop ''gt'' (column t1 ''a'') (literal ''0'')] [])
   \<and> ((\<forall>p\<in>set [binop ''gt'' (column t1 ''a'') (literal ''0'')].
          pushdown_validate sample_rules
            (op (selection t1 [column t1 ''a'', column t1 ''b''] [] [])) p = Inr True)
          \<and> (\<exists>simplified_predicates.
                map_raising (\<lambda>x. substitute_parents sample_rules x True)
                    [binop ''gt'' (column t1 ''a'') (literal ''0'')]
                  = Inr simplified_predicates
              \<and> selection t1 [column t1 ''a'', column t1 ''b'']
                   [binop ''gt'' (column t1 ''a'') (literal ''0'')] []
                = Expr Table
                      (Node Selection [E t1, L [column t1 ''a'', column t1 ''b''],
                         L ([] @ simplified_predicates), L []])
                      None)
       \<or> (\<exists>p\<in>set [binop ''gt'' (column t1 ''a'') (literal ''0'')].
             pushdown_validate sample_rules
               (op (selection t1 [column t1 ''a'', column t1 ''b''] [] [])) p = Inr False)
          \<and> selection t1 [column t1 ''a'', column t1 ''b'']
                   [binop ''gt'' (column t1 ''a'') (literal ''0'')] []
             = Expr Table (Node Selection
                 [E (selection t1 [column t1 ''a'', column t1 ''b''] [] []), L [],
                  L [binop ''gt'' (column t1 ''a'') (literal ''0'')], L []]) None)"
proof -
  let ?s = "selection t1 [column t1 ''a'', column t1 ''b''] [] []"
  let ?p = "binop ''gt'' (column t1 ''a'') (literal ''0'')"
  have shape: "args (op ?s) = [E t1, L [column t1 ''a'', column t1 ''b''], L [], L []]"
    by (simp add: selection_def)
  have nofuse: "fuse_filter sample_blocks sample_rules ?s t1 [] [] [?p] = Inr None"
    by code_simp
  have ret: "filter_selection sample_blocks sample_rules ?s [?p]
      = Inr (selection t1 [column t1 ''a'', column t1 ''b''] [?p] [])"
    by code_simp
  from filter_selection_frame [OF shape nofuse ret] shape ret
  show ?thesis by (intro conjI)
qed

text \<open>
  The claim as stated fails for a selection that does not block: for
  \<^verbatim>\<open>t.filter(t.b < 5).filter(t.a > 0)\<close> the predicate \<^verbatim>\<open>t.a > 0\<close> does not validate
  for pushdown (the selection list is empty), and yet the first fusion attempt merges
  it into the existing selection; the expression is not wrapped.
\<close>

theorem filter_selection_counterexample:
  "\<not> sample_blocks (op (selection t1 [] [binop ''lt'' (column t1 ''b'') (literal ''5'')] []))
   \<and> pushdown_validate sample_rules
        (op (selection t1 [] [binop ''lt'' (column t1 ''b'') (literal ''5'')] []))
        (binop ''gt'' (column t1 ''a'') (literal ''0'')) = Inr False
   \<and> filter_selection sample_blocks sample_rules
        (selection t1 [] [binop ''lt'' (column t1 ''b'') (literal ''5'')] [])
        [binop ''gt'' (column t1 ''a'') (literal ''0'')]
      = Inr (selection t1 []
               [binop ''lt'' (column t1 ''b'') (literal ''5''),
                binop ''gt'' (column t1 ''a'') (literal ''0'')] [])
   \<and> filter_selection sample_blocks sample_rules
        (selection t1 [] [binop ''lt'' (column t1 ''b'') (literal ''5'')] [])
        [binop ''gt'' (column t1 ''a'') (literal ''0'')]
      \<noteq> Inr (selection
               (selection t1 [] [binop ''lt'' (column t1 ''b'') (literal ''5'')] []) []
               [binop ''gt'' (column t1 ''a'') (literal ''0'')] [])"
  by code_simp

section \<open>Properties of the reduction rewrite\<close>

text \<open>
  Naming a value expression does not change its parent tables: the walk goes from the
  alias to the expression, and the node of the alias is not met again below it.
\<close>

lemma find_immediate_parent_tables_set_name:
  assumes "is_value_expr e"
  shows "find_immediate_parent_tables (set_name e x) = find_immediate_parent_tables e"
proof (cases e)
  case (Expr c n nm)
  with assms have c: "c \<noteq> Table" by simp
  let ?a = "Node Alias [E e, S x]"
  have big: "\<forall>y. op y = ?a \<longrightarrow> Suc (size e) \<le> size y"
    by (auto simp: size_expr_op)
  have "traverse_loop finder any_type True [e] [?a] = traverse_loop finder any_type True [e] []"
    by (rule traverse_loop_seen_irrelevant [where k = "Suc (size e)" and n = ?a])
      (use big in simp_all)
  with Expr c show ?thesis
    by (simp add: find_immediate_parent_tables_def traverse_def any_type_def finder_def
        flat_args_def)
qed

text \<open>
  Claim C9. For an expression that is not a table and has exactly one immediate parent
  table \<open>t\<close>, \<^verbatim>\<open>reduction_to_aggregation\<close> is \<^verbatim>\<open>t.aggregate([expr])\<close>, and
  \<^verbatim>\<open>_rewrite_filter_reduction\<close> is this aggregation viewed as a column by
  \<^verbatim>\<open>to_array\<close>; when a name is given the reduction is named first and the aggregation
  is taken over the same table.
\<close>

theorem single_table_reduction_rewrite:
  assumes "find_immediate_parent_tables e = [t]"
    and "is_value_expr e"
  shows "reduction_to_aggregation aggregate scalar_aggregate e = aggregate t [e]
       \<and> rewrite_filter_reduction aggregate scalar_aggregate to_array e None
           = (case aggregate t [e] of
                Inl err \<Rightarrow> Inl err
              | Inr aggregation \<Rightarrow> to_array aggregation)
       \<and> rewrite_filter_reduction aggregate scalar_aggregate to_array e (Some name)
           = (case aggregate t [set_name e name] of
                Inl err \<Rightarrow> Inl err
              | Inr aggregation \<Rightarrow> to_array aggregation)"
proof -
  from assms(1) have a: "reduction_to_aggregation aggregate scalar_aggregate e = aggregate t [e]"
    by (simp add: reduction_to_aggregation_def)
  from assms have "find_immediate_parent_tables (set_name e name) = [t]"
    by (simp add: find_immediate_parent_tables_set_name)
  then have b: "reduction_to_aggregation aggregate scalar_aggregate (set_name e name)
      = aggregate t [set_name e name]"
    by (simp add: reduction_to_aggregation_def)
  from a b show ?thesis by (simp add: rewrite_filter_reduction_def)
qed

theorem single_table_reduction_rewrite_witness:
  "find_immediate_parent_tables (reduction (column t1 ''a'')) = [t1]
   \<and> is_value_expr (reduction (column t1 ''a''))
   \<and> rewrite_filter_reduction sample_aggregate (\<lambda>e. Inl OtherError) sample_to_array
        (reduction (column t1 ''a'')) None
      = Inr (Expr Column
               (Node (OtherOp ''TableArrayView'')
                  [E (Expr Table
                        (Node Aggregation
                           [E t1, L [reduction (column t1 ''a'')], L [], L []])
                        None)])
               None)
   \<and> rewrite_filter_reduction sample_aggregate (\<lambda>e. Inl OtherError) sample_to_array
        (reduction (column t1 ''a'')) (Some ''total'')
      = Inr (Expr Column
               (Node (OtherOp ''TableArrayView'')
                  [E (Expr Table
                        (Node Aggregation
                           [E t1, L [set_name (reduction (column t1 ''a'')) ''total''], L [],
                            L []])
                        None)])
               None)"
proof -
  let ?e = "reduction (column t1 ''a'')"
  have h1: "find_immediate_parent_tables ?e = [t1]"
    by code_simp
  have h2: "is_value_expr ?e"
    by (simp add: reduction_def)
  have r: "(case sample_aggregate t1 [x] of
              Inl err \<Rightarrow> Inl err
            | Inr aggregation \<Rightarrow> sample_to_array aggregation)
      = Inr (Expr Column
               (Node (OtherOp ''TableArrayView'')
                  [E (Expr Table (Node Aggregation [E t1, L [x], L [], L []]) None)])
               None)" for x
    by (simp add: sample_aggregate_def sample_to_array_def)
  from single_table_reduction_rewrite [OF h1 h2, of sample_aggregate "\<lambda>e. Inl OtherError"
      sample_to_array "''total''"] h1 h2 r
  show ?thesis by simp
qed

section \<open>Properties of the projection fusion\<close>

text \<open>
  A candidate that is not a \<^verbatim>\<open>*\<close> projection and does not share all roots with the
  table below the parent ends the loop with \<^verbatim>\<open>can_fuse = False\<close>: its lifted form is
  the candidate itself, so both tests of the loop fail.
\<close>

lemma fuse_loop_break:
  assumes "val \<in> set vals"
    and star: "is_star_projection root_tables identical parent_op roots val = Inr False"
    and n2: "\<not> shares_all_roots blocks [val] [root_table]"
    and "fuse_loop blocks validate root_tables identical parent_op root_table roots
           root_selections vals fused_exprs can_fuse = Inr (fs, cf)"
  shows "\<not> cf"
  using assms(1) assms(4)
proof (induction vals arbitrary: fused_exprs can_fuse)
  case Nil
  then show ?case by simp
next
  case (Cons v vs)
  show ?case
  proof (cases "v = val")
    case True
    show ?thesis
    proof (cases "substitute_parents validate val False")
      case (Inl err)
      with Cons.prems(2) True show ?thesis by simp
    next
      case (Inr lifted_val)
      from substitute_parents_blocked [OF Inr] have "lifted_val = val" .
      with Cons.prems(2) True Inr star n2 show ?thesis by simp
    qed
  next
    case False
    with Cons.prems(1) have mem: "val \<in> set vs" by simp
    from Cons.prems(2) obtain f c where
      "fuse_loop blocks validate root_tables identical parent_op root_table roots
         root_selections vs f c = Inr (fs, cf) \<or> \<not> cf"
      by (auto split: sum.splits bool.splits prod.splits if_splits)
    with Cons.IH [OF mem] show ?thesis by blast
  qed
qed

text \<open>
  Claim C6, as amended. For a parent that is a selection: when some candidate that is
  not a \<^verbatim>\<open>*\<close> projection has root tables and shares none of them with the table below
  the parent, no candidate is fused, and the result of \<^verbatim>\<open>get_result\<close>, when it returns
  one, is a new selection over the parent with the clean candidates.
\<close>

theorem fusion_all_or_nothing:
  assumes sel: "node_tag (op parent_expr) = Selection"
    and shape: "args (op parent_expr) = [E root_table, L root_selections, L preds, L keys]"
    and init: "projector_init ensure_expr windowize_function root_tables parent_expr proj_exprs
                 = Inr p"
    and cand: "fusion_candidates ensure_expr p root_table = Inr (Some resolved)"
    and mem: "val \<in> set resolved"
    and star: "is_star_projection root_tables identical (op parent_expr)
                 (root_tables (op root_table)) val = Inr False"
    and has_roots: "root_tables_of blocks [val] \<noteq> {}"
    and no_shared: "\<not> shares_some_roots blocks [val] [root_table]"
    and ret: "projector_get_result blocks validate ensure_expr root_tables identical p = Inr r"
  shows "r = Node Selection [E parent_expr, L (clean_exprs p), L [], L []]"
proof -
  have n2: "\<not> shares_all_roots blocks [val] [root_table]"
  proof
    assume "shares_all_roots blocks [val] [root_table]"
    then have "root_tables_of blocks [val] \<subseteq> root_tables_of blocks [root_table]"
      by (simp add: shares_all_roots_def root_tables_of_def)
    moreover from no_shared
    have "root_tables_of blocks [val] \<inter> root_tables_of blocks [root_table] = {}"
      by (simp add: shares_some_roots_def root_tables_of_def)
    ultimately have "root_tables_of blocks [val] = {}" by blast
    with has_roots show False by simp
  qed
  from init sel have p: "parent p = parent_expr" "parent_roots p = [op parent_expr]"
    by (auto simp: projector_init_def split: sum.splits)
  from mem have ne: "resolved \<noteq> []" by auto
  have tf: "try_fusion blocks validate ensure_expr root_tables identical p (op parent_expr)
      = Inr None
    \<or> (\<exists>err. try_fusion blocks validate ensure_expr root_tables identical p (op parent_expr)
      = Inl err)"
  proof (cases "fuse_loop blocks validate root_tables identical (op parent_expr)
                  root_table (root_tables (op root_table)) root_selections resolved [] False")
    case (Inl err)
    with p shape cand ne show ?thesis by (simp add: try_fusion_def)
  next
    case (Inr res)
    obtain fs cf where res: "res = (fs, cf)" by (cases res)
    from fuse_loop_break [OF mem star n2 Inr [unfolded res]] have "\<not> cf" .
    with Inr res p shape cand ne show ?thesis by (simp add: try_fusion_def)
  qed
  from tf ret p sel
  have "construct validate Selection [E parent_expr, L (clean_exprs p), L [], L []] = Inr r"
    by (auto simp: projector_get_result_def)
  then show ?thesis
    by (simp add: construct_def split: option.splits)
qed

theorem fusion_all_or_nothing_witness:
  "projector_init sample_ensure_expr sample_windowize sample_root_tables
      (selection t1 [column t1 ''a''] [binop ''gt'' (column t1 ''a'') (column t2 ''c'')] [])
      [column t2 ''c'']
     = Inr \<lparr>parent = selection t1 [column t1 ''a'']
                       [binop ''gt'' (column t1 ''a'') (column t2 ''c'')] [],
            input_exprs = [column t2 ''c''], resolved_exprs = [column t2 ''c''],
            parent_roots = [op (selection t1 [column t1 ''a'']
                                  [binop ''gt'' (column t1 ''a'') (column t2 ''c'')] [])],
            clean_exprs = [column t2 ''c'']\<rparr>
   \<and> root_tables_of sample_blocks [column t2 ''c''] = {op t2}
   \<and> \<not> shares_some_roots sample_blocks [column t2 ''c''] [t1]
   \<and> projector_get_result sample_blocks sample_rules sample_ensure_expr sample_root_tables
        (=)
        \<lparr>parent = selection t1 [column t1 ''a'']
                   [binop ''gt'' (column t1 ''a'') (column t2 ''c'')] [],
         input_exprs = [column t2 ''c''], resolved_exprs = [column t2 ''c''],
         parent_roots = [op (selection t1 [column t1 ''a'']
                               [binop ''gt'' (column t1 ''a'') (column t2 ''c'')] [])],
         clean_exprs = [column t2 ''c'']\<rparr>
     = Inr (Node Selection
              [E (selection t1 [column t1 ''a'']
                    [binop ''gt'' (column t1 ''a'') (column t2 ''c'')] []),
               L [column t2 ''c''], L [], L []])"
proof -
  let ?s = "selection t1 [column t1 ''a''] [binop ''gt'' (column t1 ''a'') (column t2 ''c'')] []"
  let ?c = "column t2 ''c''"
  let ?p = "\<lparr>parent = ?s, input_exprs = [?c], resolved_exprs = [?c],
            parent_roots = [op ?s], clean_exprs = [?c]\<rparr>"
  have sel: "node_tag (op ?s) = Selection" by (simp add: selection_def)
  have shape: "args (op ?s)
      = [E t1, L [column t1 ''a''], L [binop ''gt'' (column t1 ''a'') (column t2 ''c'')], L []]"
    by (simp add: selection_def)
  have init: "projector_init sample_ensure_expr sample_windowize sample_root_tables ?s [?c]
      = Inr ?p"
    by (simp add: projector_init_def sample_ensure_expr_def sample_windowize_def
        selection_def)
  have cand: "fusion_candidates sample_ensure_expr ?p t1 = Inr (Some [?c])"
    by (simp add: fusion_candidates_def sample_ensure_expr_def t1_def physical_def)
  have mem: "?c \<in> set [?c]" by simp
  have star: "is_star_projection sample_root_tables (=) (op ?s) (sample_root_tables (op t1)) ?c
      = Inr False"
    by (simp add: is_star_projection_def column_def)
  have "traverse (find_root_table sample_blocks) [?c] any_type True = [op t2]"
    by code_simp
  then have roots: "root_tables_of sample_blocks [?c] = {op t2}"
    by (simp add: root_tables_of_def)
  then have has_roots: "root_tables_of sample_blocks [?c] \<noteq> {}" by simp
  have ns: "\<not> shares_some_roots sample_blocks [?c] [t1]" by code_simp
  have "case projector_get_result sample_blocks sample_rules sample_ensure_expr
      sample_root_tables (=) ?p of Inl err \<Rightarrow> False | Inr r \<Rightarrow> True"
    by code_simp
  then obtain r where ret: "projector_get_result sample_blocks sample_rules sample_ensure_expr
      sample_root_tables (=) ?p = Inr r"
    by (auto split: sum.splits)
  from fusion_all_or_nothing [OF sel shape init cand mem star has_roots ns ret]
  have "r = Node Selection [E ?s, L [?c], L [], L []]" by simp
  with ret init roots ns show ?thesis by simp
qed

text \<open>
  The claim as stated fails for a candidate without root tables: a literal shares no
  roots with the table below the parent (\<^verbatim>\<open>shares_some_roots\<close> is false), and
  \<^verbatim>\<open>t.select(t.a).select(one)\<close> with the named literal \<^verbatim>\<open>one\<close> is fused into a
  selection over \<^verbatim>\<open>t\<close>.
\<close>

theorem fusion_literal_counterexample:
  "\<not> shares_some_roots sample_blocks [set_name (literal ''1'') ''one''] [t1]
   \<and> sample_rules Selection
        (args (op (selection t1 [column t1 ''a''] [] []))) = None
   \<and> projector_init sample_ensure_expr sample_windowize sample_root_tables
        (selection t1 [column t1 ''a''] [] []) [set_name (literal ''1'') ''one'']
      = Inr \<lparr>parent = selection t1 [column t1 ''a''] [] [],
             input_exprs = [set_name (literal ''1'') ''one''],
             resolved_exprs = [set_name (literal ''1'') ''one''],
             parent_roots = [op (selection t1 [column t1 ''a''] [] [])],
             clean_exprs = [set_name (literal ''1'') ''one'']\<rparr>
   \<and> projector_get_result sample_blocks sample_rules sample_ensure_expr sample_root_tables
        (=)
        \<lparr>parent = selection t1 [column t1 ''a''] [] [],
         input_exprs = [set_name (literal ''1'') ''one''],
         resolved_exprs = [set_name (literal ''1'') ''one''],
         parent_roots = [op (selection t1 [column t1 ''a''] [] [])],
         clean_exprs = [set_name (literal ''1'') ''one'']\<rparr>
     = Inr (Node Selection [E t1, L [set_name (literal ''1'') ''one''], L [], L []])
   \<and> Node Selection [E t1, L [set_name (literal ''1'') ''one''], L [], L []]
     \<noteq> Node Selection
          [E (selection t1 [column t1 ''a''] [] []), L [set_name (literal ''1'') ''one''],
           L [], L []]"
  by code_simp

end
